theory Spec2Isabelle
  imports Main "HOL-Library.Word"
begin

section \<open>JavaScript strings\<close>

text \<open>
  A JavaScript string is a sequence of UTF-16 code units. \<open>length\<close>, \<open>substring\<close>,
  \<open>indexOf\<close> and the regular expressions of the source (none has the \<open>u\<close> flag) all
  count code units, so a string is modelled as a list of 16-bit words:
  \<open>s.substring(0, k)\<close> is \<open>take k s\<close>, \<open>s.substring(k)\<close> is \<open>drop k s\<close> (both clamp at
  the length, as \<open>substring\<close> does), \<open>a + b\<close> is \<open>a @ b\<close> and \<open>===\<close> on strings is \<open>=\<close>.
\<close>

type_synonym utf16 = "16 word"
type_synonym jsstring = "utf16 list"

definition lit :: "string \<Rightarrow> jsstring" where
  "lit s = map of_char s"

abbreviation LF :: utf16 where
  "LF \<equiv> 0x0A"

definition isHighSurrogate :: "utf16 \<Rightarrow> bool" where
  "isHighSurrogate c = (0xD800 \<le> c \<and> c \<le> 0xDBFF)"

definition isLowSurrogate :: "utf16 \<Rightarrow> bool" where
  "isLowSurrogate c = (0xDC00 \<le> c \<and> c \<le> 0xDFFF)"

text \<open>
  UTF-8 bytes of one code unit that is not the head of a surrogate pair. A lone surrogate
  is encoded by \<open>TextEncoder\<close> as U+FFFD, three bytes, like every other unit from 0x800 on.
\<close>

definition unitBytes :: "utf16 \<Rightarrow> nat" where
  "unitBytes c = (if c < 0x80 then 1 else if c < 0x800 then 2 else 3)"

text \<open>\<open>new TextEncoder().encode(s).length\<close>: a surrogate pair is one code point of four bytes.\<close>

fun utf8Length :: "jsstring \<Rightarrow> nat" where
  "utf8Length [] = 0"
| "utf8Length (c # cs) =
     (if isHighSurrogate c \<and> cs \<noteq> [] \<and> isLowSurrogate (hd cs)
      then 4 + utf8Length (tl cs)
      else unitBytes c + utf8Length cs)"

text \<open>
  \<open>String.prototype.trim\<close> and the class \<open>\s\<close> of a regular expression use the same set:
  the ECMAScript white space and line terminator code points.
\<close>

definition isWhiteSpace :: "utf16 \<Rightarrow> bool" where
  "isWhiteSpace c =
     ((0x09 \<le> c \<and> c \<le> 0x0D) \<or> c = 0x20 \<or> c = 0xA0 \<or> c = 0x1680 \<or>
      (0x2000 \<le> c \<and> c \<le> 0x200A) \<or> c = 0x2028 \<or> c = 0x2029 \<or> c = 0x202F \<or>
      c = 0x205F \<or> c = 0x3000 \<or> c = 0xFEFF)"

definition trim :: "jsstring \<Rightarrow> jsstring" where
  "trim s = rev (dropWhile isWhiteSpace (rev (dropWhile isWhiteSpace s)))"

text \<open>
  \<open>s.trim().split(/\s+/).filter(w => w.length > 0).length\<close>: the number of maximal runs of
  units that are not white space. The flag says whether the scan is inside such a run.
\<close>

fun countRuns :: "bool \<Rightarrow> jsstring \<Rightarrow> nat" where
  "countRuns inside [] = 0"
| "countRuns inside (c # cs) =
     (if isWhiteSpace c then countRuns False cs
      else (if inside then 0 else 1) + countRuns True cs)"

definition wordCountFiltered :: "jsstring \<Rightarrow> nat" where
  "wordCountFiltered s = countRuns False s"

text \<open>
  \<open>s.trim().split(/\s+/).length\<close>, without the filter: splitting the empty string gives
  one empty piece, so an all-white-space string counts one word.
\<close>

definition wordCountUnfiltered :: "jsstring \<Rightarrow> nat" where
  "wordCountUnfiltered s = (if trim s = [] then 1 else countRuns False s)"

section \<open>Size estimator\<close>

definition HIVE_BODY_LIMIT_BYTES :: nat where
  "HIVE_BODY_LIMIT_BYTES = 64 * 1024"

definition SAFE_CHUNK_SIZE_BYTES :: nat where
  "SAFE_CHUNK_SIZE_BYTES = 58 * 1024"

definition METADATA_OVERHEAD_BYTES :: nat where
  "METADATA_OVERHEAD_BYTES = 2 * 1024"

definition minChunkSizeBytes :: nat where
  "minChunkSizeBytes = 10 * 1024"

text \<open>
  \<open>calculateByteSize\<close>: the UTF-8 length plus \<open>Math.ceil(encoded.length * 0.03)\<close>. The
  double nearest to 0.03 lies below it by less than a quarter of its last binary place,
  so for every length the product rounds to the exact value when three hundredths of the
  length is whole, and is otherwise away from a whole number by a hundredth at least:
  the ceiling is the one of the exact quotient, written here on naturals.
\<close>

definition calculateByteSize :: "jsstring \<Rightarrow> nat" where
  "calculateByteSize content =
     (if content = [] then 0
      else utf8Length content + (3 * utf8Length content + 99) div 100)"

definition needsSplitting :: "jsstring \<Rightarrow> bool" where
  "needsSplitting content = (calculateByteSize content > SAFE_CHUNK_SIZE_BYTES)"

section \<open>Boundary splitter\<close>

datatype boundary = BParagraph | BSentence | BWord | BCharacter

fun markersOf :: "boundary \<Rightarrow> jsstring list" where
  "markersOf BParagraph = [[LF, LF], lit ''</p>'', lit ''<br><br>'', lit ''<br/><br/>'']"
| "markersOf BSentence =
     [lit ''. '', lit ''! '', lit ''? '', [0x2E, LF], [0x21, LF], [0x3F, LF]]"
| "markersOf BWord = [lit '' '']"
| "markersOf BCharacter = []"

text \<open>
  \<open>content.indexOf(marker, from)\<close>: the first position at or after \<open>from\<close> where the marker
  stands, \<open>None\<close> for -1. The first argument of the scan is the text from position \<open>i\<close> on.
\<close>

fun indexOfFrom :: "jsstring \<Rightarrow> jsstring \<Rightarrow> nat \<Rightarrow> nat option" where
  "indexOfFrom m [] i = (if m = [] then Some i else None)"
| "indexOfFrom m (c # cs) i =
     (if take (length m) (c # cs) = m then Some i else indexOfFrom m cs (Suc i))"

definition indexOf :: "jsstring \<Rightarrow> jsstring \<Rightarrow> nat \<Rightarrow> nat option" where
  "indexOf content m from = indexOfFrom m (drop from content) from"

text \<open>
  The inner \<open>for (const marker of markers)\<close>: the nearest marker at or after \<open>searchPos\<close>;
  of two markers at the same position the earlier in the list stays (the test is \<open><\<close>).
\<close>

fun nextMarker ::
  "jsstring list \<Rightarrow> jsstring \<Rightarrow> nat \<Rightarrow> (nat \<times> jsstring) option \<Rightarrow> (nat \<times> jsstring) option"
where
  "nextMarker [] content searchPos best = best"
| "nextMarker (m # ms) content searchPos best =
     (case indexOf content m searchPos of
        None \<Rightarrow> nextMarker ms content searchPos best
      | Some pos \<Rightarrow>
          (case best of
             None \<Rightarrow> nextMarker ms content searchPos (Some (pos, m))
           | Some (bestPos, bestMarker) \<Rightarrow>
               if pos < bestPos then nextMarker ms content searchPos (Some (pos, m))
               else nextMarker ms content searchPos best))"

lemma indexOfFrom_ge: "indexOfFrom m s i = Some p \<Longrightarrow> i \<le> p"
proof (induction s arbitrary: i)
  case Nil
  then show ?case by (simp split: if_splits)
next
  case (Cons c cs)
  then show ?case by (fastforce split: if_splits)
qed

lemma nextMarker_found:
  "nextMarker ms content searchPos best = Some (pos, m) \<Longrightarrow>
     best = Some (pos, m) \<or> (m \<in> set ms \<and> searchPos \<le> pos)"
proof (induction ms arbitrary: best)
  case Nil
  then show ?case by simp
next
  case (Cons a ms)
  show ?case
  proof (cases "indexOf content a searchPos")
    case None
    with Cons show ?thesis by fastforce
  next
    case (Some p)
    then have ge: "searchPos \<le> p"
      unfolding indexOf_def by (rule indexOfFrom_ge)
    from Cons.prems Some have
      "nextMarker ms content searchPos (Some (p, a)) = Some (pos, m)
       \<or> nextMarker ms content searchPos best = Some (pos, m)"
      by (auto split: option.splits if_splits)
    then show ?thesis
    proof
      assume "nextMarker ms content searchPos (Some (p, a)) = Some (pos, m)"
      from Cons.IH [OF this] ge show ?thesis by auto
    next
      assume "nextMarker ms content searchPos best = Some (pos, m)"
      from Cons.IH [OF this] show ?thesis by auto
    qed
  qed
qed

lemma markersOf_nonempty: "m \<in> set (markersOf b) \<Longrightarrow> m \<noteq> []"
  by (cases b) (auto simp: lit_def)

lemma nextMarker_advances:
  assumes "nextMarker (markersOf b) content searchPos None = Some (pos, m)"
  shows "searchPos < pos + length m"
proof -
  from nextMarker_found [OF assms] have "m \<in> set (markersOf b)" and "searchPos \<le> pos"
    by auto
  with markersOf_nonempty [of m b] show ?thesis
    by (cases m) auto
qed

text \<open>
  The \<open>while (searchPos < content.length)\<close> loop of the paragraph, sentence and word
  kinds, with both of its variables. Each round measures the whole prefix up to the end
  of the marker with \<open>calculateByteSize\<close>.
\<close>

function markerLoop :: "boundary \<Rightarrow> jsstring \<Rightarrow> nat \<Rightarrow> nat \<Rightarrow> nat \<Rightarrow> nat" where
  "markerLoop b content targetSize bestSplitPos searchPos =
     (if searchPos < length content then
        (case nextMarker (markersOf b) content searchPos None of
           None \<Rightarrow> (if bestSplitPos > 0 then bestSplitPos else searchPos)
         | Some (pos, m) \<Rightarrow>
             if calculateByteSize (take (pos + length m) content) \<le> targetSize
             then markerLoop b content targetSize (pos + length m) (pos + length m)
             else (if bestSplitPos > 0 then bestSplitPos else searchPos))
      else (if bestSplitPos > 0 then bestSplitPos else searchPos))"
  by pat_completeness auto
termination
proof (relation "measure (\<lambda>(b, content, targetSize, bestSplitPos, searchPos). length content - searchPos)")
  show "wf (measure (\<lambda>(b, content, targetSize, bestSplitPos, searchPos). length content - searchPos))"
    by simp
next
  fix b :: boundary and content :: jsstring and targetSize bestSplitPos searchPos :: nat
    and x2 :: "nat \<times> jsstring" and pos :: nat and m :: jsstring
  assume "searchPos < length content"
    and "nextMarker (markersOf b) content searchPos None = Some x2"
    and "(pos, m) = x2"
  then have "searchPos < pos + length m"
    using nextMarker_advances [of b content searchPos pos m] by simp
  with \<open>searchPos < length content\<close>
  show "((b, content, targetSize, pos + length m, pos + length m),
         (b, content, targetSize, bestSplitPos, searchPos))
        \<in> measure (\<lambda>(b, content, targetSize, bestSplitPos, searchPos). length content - searchPos)"
    by simp
qed

text \<open>
  The \<open>while (charPos < content.length)\<close> loop of the character kind. The first argument
  is the text from \<open>charPos\<close> on; \<open>codePointAt\<close> reads a surrogate pair as one code point
  of two units and four bytes, any other unit alone.
\<close>

fun charLoop :: "jsstring \<Rightarrow> nat \<Rightarrow> nat \<Rightarrow> nat \<Rightarrow> nat" where
  "charLoop [] targetSize charPos byteCount = charPos"
| "charLoop (c # cs) targetSize charPos byteCount =
     (if isHighSurrogate c \<and> cs \<noteq> [] \<and> isLowSurrogate (hd cs)
      then (if byteCount + 4 > targetSize then charPos
            else charLoop (tl cs) targetSize (charPos + 2) (byteCount + 4))
      else (if byteCount + unitBytes c > targetSize then charPos
            else charLoop cs targetSize (charPos + 1) (byteCount + unitBytes c)))"

definition findSplitPosition :: "jsstring \<Rightarrow> nat \<Rightarrow> boundary \<Rightarrow> nat" where
  "findSplitPosition content targetSize b =
     (case b of
        BCharacter \<Rightarrow> charLoop content targetSize 0 0
      | _ \<Rightarrow> markerLoop b content targetSize 0 0)"

declare markerLoop.simps [simp del]

section \<open>Content splitter\<close>

text \<open>The \<open>boundary\<close> field of a part: the kind that ended it, or one of the three fixed texts.\<close>

datatype boundary_label = LNone | LBoundary boundary | LCharacterForced | LEmergency

record content_part =
  cp_partNumber :: nat
  cp_totalParts :: nat
  cp_content :: jsstring
  cp_byteSize :: nat
  cp_wordCount :: nat
  cp_boundary :: boundary_label

datatype split_error = TooManyParts

definition usableChunkSize :: nat where
  "usableChunkSize = SAFE_CHUNK_SIZE_BYTES - METADATA_OVERHEAD_BYTES"

definition boundaryTypes :: "boundary list" where
  "boundaryTypes = [BParagraph, BSentence, BWord, BCharacter]"

text \<open>
  The \<open>for (const boundary of boundaryTypes)\<close> loop. \<open>splitPos\<close> keeps the last position
  computed when no kind is accepted, and \<open>boundaryUsed\<close> then keeps its initial value.
\<close>

fun tryBoundaries :: "jsstring \<Rightarrow> boundary list \<Rightarrow> nat \<Rightarrow> nat \<times> boundary_label" where
  "tryBoundaries remainingContent [] splitPos = (splitPos, LBoundary BCharacter)"
| "tryBoundaries remainingContent (b # bs) splitPos =
     (let p = findSplitPosition remainingContent usableChunkSize b in
      if p > 0 \<and>
         (calculateByteSize (take p remainingContent) \<ge> minChunkSizeBytes \<or>
          length (trim (drop p remainingContent)) = 0)
      then (p, LBoundary b)
      else tryBoundaries remainingContent bs p)"

definition chooseSplit :: "jsstring \<Rightarrow> nat \<times> boundary_label" where
  "chooseSplit remainingContent =
     (case tryBoundaries remainingContent boundaryTypes 0 of
        (splitPos, used) \<Rightarrow>
          if splitPos = 0
          then (findSplitPosition remainingContent usableChunkSize BCharacter, LCharacterForced)
          else (splitPos, used))"

definition mkPart :: "nat \<Rightarrow> jsstring \<Rightarrow> boundary_label \<Rightarrow> content_part" where
  "mkPart n text used =
     \<lparr>cp_partNumber = n, cp_totalParts = 0, cp_content = text,
      cp_byteSize = calculateByteSize text, cp_wordCount = wordCountFiltered text,
      cp_boundary = used\<rparr>"

text \<open>
  The \<open>while (remainingContent.length > 0)\<close> loop. \<open>maxParts\<close> stands for the literal 100
  of the safety check, which runs right after \<open>partNumber++\<close> and before the loop tests
  whether anything remains.
\<close>

function splitLoop ::
  "nat \<Rightarrow> jsstring \<Rightarrow> nat \<Rightarrow> content_part list \<Rightarrow> split_error + content_part list"
where
  "splitLoop maxParts remainingContent partNumber parts =
     (if remainingContent = [] then Inr parts
      else
        (case chooseSplit remainingContent of
           (splitPos, used) \<Rightarrow>
             if splitPos = 0
             then Inr (parts @ [mkPart partNumber remainingContent LEmergency])
             else if partNumber + 1 > maxParts then Inl TooManyParts
             else splitLoop maxParts (drop splitPos remainingContent) (partNumber + 1)
                    (parts @ [mkPart partNumber (take splitPos remainingContent) used])))"
  by pat_completeness auto
termination
  by (relation "measure (\<lambda>(maxParts, remainingContent, partNumber, parts). length remainingContent)")
     auto

declare splitLoop.simps [simp del]

definition MAX_PARTS :: nat where
  "MAX_PARTS = 100"

text \<open>
  \<open>splitContentIntoParts\<close> on a string (any other value is refused by its first check).
  The title is only logged.
\<close>

definition splitContentIntoParts :: "jsstring \<Rightarrow> split_error + content_part list" where
  "splitContentIntoParts content =
     (if \<not> needsSplitting content
      then Inr [\<lparr>cp_partNumber = 1, cp_totalParts = 1, cp_content = content,
                 cp_byteSize = calculateByteSize content,
                 cp_wordCount = wordCountUnfiltered content, cp_boundary = LNone\<rparr>]
      else
        (case splitLoop MAX_PARTS content 1 [] of
           Inl e \<Rightarrow> Inl e
         | Inr parts \<Rightarrow> Inr (map (\<lambda>part. part\<lparr>cp_totalParts := length parts\<rparr>) parts)))"

subsection \<open>Reassembly\<close>

lemma splitLoop_concat:
  "splitLoop maxParts remainingContent partNumber parts = Inr ps \<Longrightarrow>
     concat (map cp_content ps) = concat (map cp_content parts) @ remainingContent"
proof (induction maxParts remainingContent partNumber parts rule: splitLoop.induct)
  case (1 maxParts remainingContent partNumber parts)
  show ?case
  proof (cases "remainingContent = []")
    case True
    with "1.prems" show ?thesis by (simp add: splitLoop.simps)
  next
    case False
    obtain splitPos used where cs: "chooseSplit remainingContent = (splitPos, used)"
      by (cases "chooseSplit remainingContent")
    show ?thesis
    proof (cases "splitPos = 0")
      case True
      with "1.prems" False cs show ?thesis
        by (auto simp: splitLoop.simps mkPart_def)
    next
      case nz: False
      with "1.prems" False cs have le: "\<not> partNumber + 1 > maxParts"
        by (auto simp: splitLoop.simps split: if_splits)
      with "1.prems" False cs nz have
        "splitLoop maxParts (drop splitPos remainingContent) (partNumber + 1)
           (parts @ [mkPart partNumber (take splitPos remainingContent) used]) = Inr ps"
        by (simp add: splitLoop.simps)
      from "1.IH" [OF False cs [symmetric] nz le this] show ?thesis
        by (simp add: mkPart_def)
    qed
  qed
qed

lemma splitLoop_numbers:
  "splitLoop maxParts remainingContent partNumber parts = Inr ps \<Longrightarrow>
     \<exists>k. map cp_partNumber ps = map cp_partNumber parts @ [partNumber ..< partNumber + k]"
proof (induction maxParts remainingContent partNumber parts rule: splitLoop.induct)
  case (1 maxParts remainingContent partNumber parts)
  show ?case
  proof (cases "remainingContent = []")
    case True
    with "1.prems" have "ps = parts" by (simp add: splitLoop.simps)
    then have "map cp_partNumber ps = map cp_partNumber parts @ [partNumber ..< partNumber + 0]"
      by simp
    then show ?thesis by blast
  next
    case False
    obtain splitPos used where cs: "chooseSplit remainingContent = (splitPos, used)"
      by (cases "chooseSplit remainingContent")
    show ?thesis
    proof (cases "splitPos = 0")
      case True
      with "1.prems" False cs
      have "ps = parts @ [mkPart partNumber remainingContent LEmergency]"
        by (simp add: splitLoop.simps)
      then have "map cp_partNumber ps = map cp_partNumber parts @ [partNumber ..< partNumber + 1]"
        by (simp add: mkPart_def)
      then show ?thesis by blast
    next
      case nz: False
      with "1.prems" False cs have le: "\<not> partNumber + 1 > maxParts"
        by (auto simp: splitLoop.simps split: if_splits)
      with "1.prems" False cs nz have
        "splitLoop maxParts (drop splitPos remainingContent) (partNumber + 1)
           (parts @ [mkPart partNumber (take splitPos remainingContent) used]) = Inr ps"
        by (simp add: splitLoop.simps)
      from "1.IH" [OF False cs [symmetric] nz le this] obtain k where
        "map cp_partNumber ps =
           map cp_partNumber (parts @ [mkPart partNumber (take splitPos remainingContent) used])
           @ [partNumber + 1 ..< partNumber + 1 + k]"
        by blast
      then have "map cp_partNumber ps =
          map cp_partNumber parts @ [partNumber ..< partNumber + (k + 1)]"
        by (simp add: mkPart_def upt_rec [of partNumber])
      then show ?thesis by blast
    qed
  qed
qed

subsection \<open>The splitter on a text of one repeated letter\<close>

text \<open>
  A text that needs splitting has tens of thousands of units, so the splitter is run on
  the texts \<open>replicate n a\<close> by lemmas in \<open>n\<close> rather than by evaluation. The letter
  \<open>a\<close> is any unit of one UTF-8 byte that is not white space and starts no marker.
\<close>

definition plainLetter :: "utf16 \<Rightarrow> bool" where
  "plainLetter a =
     (a < 0x80 \<and> \<not> isWhiteSpace a \<and>
      (\<forall>b \<in> set boundaryTypes. \<forall>m \<in> set (markersOf b). hd m \<noteq> a))"

lemma plainLetter_a: "plainLetter 0x61"
  by (simp add: plainLetter_def isWhiteSpace_def boundaryTypes_def lit_def)

lemma plainLetter_bytes: "plainLetter a \<Longrightarrow> unitBytes a = 1"
  by (simp add: plainLetter_def unitBytes_def)

lemma plainLetter_not_high: "plainLetter a \<Longrightarrow> \<not> isHighSurrogate a"
proof
  assume p: "plainLetter a" and h: "isHighSurrogate a"
  from p have lt: "a < 0x80" by (simp add: plainLetter_def)
  from h have ge: "0xD800 \<le> a" by (simp add: isHighSurrogate_def)
  from ge lt have "(0xD800 :: utf16) < 0x80" by (rule le_less_trans)
  then show False by simp
qed

lemma utf8Length_replicate: "plainLetter a \<Longrightarrow> utf8Length (replicate n a) = n"
  by (induction n) (simp_all add: plainLetter_bytes plainLetter_not_high)

lemma calculateByteSize_replicate:
  "plainLetter a \<Longrightarrow> calculateByteSize (replicate n a) = n + (3 * n + 99) div 100"
  by (simp add: calculateByteSize_def utf8Length_replicate)

lemma indexOfFrom_replicate:
  "m \<noteq> [] \<Longrightarrow> hd m \<noteq> a \<Longrightarrow> indexOfFrom m (replicate n a) i = None"
proof (induction n arbitrary: i)
  case 0
  then show ?case by simp
next
  case (Suc n)
  from Suc.prems have "take (length m) (a # replicate n a) \<noteq> m"
    by (cases m) auto
  with Suc show ?case by simp
qed

lemma nextMarker_replicate:
  "\<forall>m \<in> set ms. m \<noteq> [] \<and> hd m \<noteq> a \<Longrightarrow>
     nextMarker ms (replicate n a) searchPos best = best"
  by (induction ms arbitrary: best) (simp_all add: indexOf_def indexOfFrom_replicate)

lemma markerLoop_replicate:
  assumes "plainLetter a" and "b \<noteq> BCharacter"
  shows "markerLoop b (replicate n a) targetSize 0 0 = 0"
proof -
  from assms have "b \<in> set boundaryTypes"
    by (cases b) (simp_all add: boundaryTypes_def)
  with assms have "\<forall>m \<in> set (markersOf b). m \<noteq> [] \<and> hd m \<noteq> a"
    using markersOf_nonempty by (auto simp: plainLetter_def)
  then have "nextMarker (markersOf b) (replicate n a) 0 None = None"
    by (rule nextMarker_replicate)
  then show ?thesis by (simp add: markerLoop.simps)
qed

lemma charLoop_replicate:
  "plainLetter a \<Longrightarrow> byteCount \<le> targetSize \<Longrightarrow>
     charLoop (replicate n a) targetSize charPos byteCount
       = charPos + min n (targetSize - byteCount)"
proof (induction n arbitrary: charPos byteCount)
  case 0
  then show ?case by simp
next
  case (Suc n)
  show ?case
  proof (cases "byteCount + 1 > targetSize")
    case True
    with Suc.prems show ?thesis
      by (simp add: plainLetter_bytes plainLetter_not_high)
  next
    case False
    then have "byteCount + 1 \<le> targetSize" by simp
    from Suc.IH [OF Suc.prems(1) this, of "charPos + 1"] False Suc.prems show ?thesis
      by (auto simp: plainLetter_bytes plainLetter_not_high min_def)
  qed
qed

lemma findSplitPosition_replicate:
  assumes "plainLetter a"
  shows "findSplitPosition (replicate n a) targetSize b
           = (if b = BCharacter then min n targetSize else 0)"
proof (cases "b = BCharacter")
  case True
  with charLoop_replicate [OF assms, of 0 targetSize n 0] show ?thesis
    by (simp add: findSplitPosition_def)
next
  case False
  with markerLoop_replicate [OF assms False] show ?thesis
    by (cases b) (simp_all add: findSplitPosition_def)
qed

lemma chooseSplit_replicate:
  assumes "plainLetter a" and "0 < n"
  shows "chooseSplit (replicate n a) = (min n usableChunkSize, LBoundary BCharacter)"
proof (cases "n \<le> usableChunkSize")
  case True
  with assms show ?thesis
    by (simp add: chooseSplit_def boundaryTypes_def findSplitPosition_replicate trim_def)
next
  case False
  then have m: "min n usableChunkSize = usableChunkSize" by simp
  have "minChunkSizeBytes \<le> calculateByteSize (replicate usableChunkSize a)"
    using assms(1)
    by (simp add: calculateByteSize_replicate usableChunkSize_def minChunkSizeBytes_def
        SAFE_CHUNK_SIZE_BYTES_def METADATA_OVERHEAD_BYTES_def)
  moreover have "0 < usableChunkSize"
    by (simp add: usableChunkSize_def SAFE_CHUNK_SIZE_BYTES_def METADATA_OVERHEAD_BYTES_def)
  ultimately show ?thesis
    using assms m
    by (simp add: chooseSplit_def boundaryTypes_def findSplitPosition_replicate)
qed

text \<open>
  A text of \<open>k\<close> full chunks of the letter, entered with \<open>partNumber\<close>: the loop pushes
  \<open>k\<close> parts, and the safety check stops it when the \<open>k\<close>-th push takes the counter past
  \<open>maxParts\<close>, although nothing remains to split then.
\<close>

lemma splitLoop_replicate:
  assumes "plainLetter a"
  shows "splitLoop maxParts (replicate (k * usableChunkSize) a) partNumber parts =
           (if 0 < k \<and> maxParts < partNumber + k then Inl TooManyParts
            else Inr (parts @ map (\<lambda>i. mkPart (partNumber + i) (replicate usableChunkSize a)
                                          (LBoundary BCharacter)) [0 ..< k]))"
proof (induction k arbitrary: partNumber parts)
  case 0
  show ?case by (simp add: splitLoop.simps)
next
  case (Suc k)
  have pos: "0 < usableChunkSize"
    by (simp add: usableChunkSize_def SAFE_CHUNK_SIZE_BYTES_def METADATA_OVERHEAD_BYTES_def)
  then have ne: "replicate (Suc k * usableChunkSize) a \<noteq> []" by simp
  have cs: "chooseSplit (replicate (Suc k * usableChunkSize) a)
              = (usableChunkSize, LBoundary BCharacter)"
    using chooseSplit_replicate [OF assms, of "Suc k * usableChunkSize"] pos by simp
  show ?case
  proof (cases "maxParts < partNumber + 1")
    case True
    with ne cs pos show ?thesis
      by (subst splitLoop.simps) simp
  next
    case False
    have step: "splitLoop maxParts (replicate (Suc k * usableChunkSize) a) partNumber parts =
        splitLoop maxParts (replicate (k * usableChunkSize) a) (partNumber + 1)
          (parts @ [mkPart partNumber (replicate usableChunkSize a) (LBoundary BCharacter)])"
      using ne cs pos False by (subst splitLoop.simps) simp
    have shift: "map (\<lambda>i. mkPart (partNumber + i) (replicate usableChunkSize a)
                       (LBoundary BCharacter)) [0 ..< Suc k]
        = mkPart partNumber (replicate usableChunkSize a) (LBoundary BCharacter)
          # map (\<lambda>i. mkPart (partNumber + 1 + i) (replicate usableChunkSize a)
                       (LBoundary BCharacter)) [0 ..< k]"
      by (simp add: upt_conv_Cons map_Suc_upt [symmetric] del: upt_Suc)
    show ?thesis
      unfolding step Suc.IH shift using False by auto
  qed
qed

subsection \<open>Claims on the content splitter\<close>

text \<open>
  C1. For every string content \<open>C\<close> for which splitting is needed, the parts that
  \<open>splitContentIntoParts\<close> returns carry the part numbers 1, 2, ... in list order, and the
  concatenation of their \<open>content\<close> fields in that order is \<open>C\<close> itself, unit for unit:
  no part is trimmed and nothing is dropped between two parts.
\<close>

theorem splitContentIntoParts_reassembles:
  assumes "needsSplitting C" and "splitContentIntoParts C = Inr ps"
  shows "concat (map cp_content ps) = C \<and> map cp_partNumber ps = [1 ..< Suc (length ps)]"
proof -
  from assms obtain qs where loop: "splitLoop MAX_PARTS C 1 [] = Inr qs"
    and ps: "ps = map (\<lambda>part. part\<lparr>cp_totalParts := length qs\<rparr>) qs"
    by (auto simp: splitContentIntoParts_def split: sum.splits)
  have same_content: "map cp_content ps = map cp_content qs"
    and same_numbers: "map cp_partNumber ps = map cp_partNumber qs"
    by (simp_all add: ps)
  have len: "length ps = length qs" by (simp add: ps)
  from splitLoop_concat [OF loop] have qc: "concat (map cp_content qs) = C" by simp
  from splitLoop_numbers [OF loop] obtain k where
    k: "map cp_partNumber qs = [1 ..< 1 + k]" by auto
  then have "length qs = k"
    by (metis add_diff_cancel_left' length_map length_upt)
  with k have qn: "map cp_partNumber qs = [1 ..< Suc (length qs)]" by simp
  have "concat (map cp_content ps) = C"
    unfolding same_content by (rule qc)
  moreover have "map cp_partNumber ps = [1 ..< Suc (length ps)]"
    unfolding same_numbers len by (rule qn)
  ultimately show ?thesis by (rule conjI)
qed

theorem splitContentIntoParts_reassembles_witness:
  "needsSplitting (replicate (2 * usableChunkSize) 0x61) \<and>
   (\<exists>ps. splitContentIntoParts (replicate (2 * usableChunkSize) 0x61) = Inr ps \<and>
         length ps = 2 \<and>
         concat (map cp_content ps) = replicate (2 * usableChunkSize) 0x61 \<and>
         map cp_partNumber ps = [1, 2])"
proof -
  let ?C = "replicate (2 * usableChunkSize) (0x61 :: utf16)"
  have ns: "needsSplitting ?C"
    by (simp add: needsSplitting_def calculateByteSize_replicate [OF plainLetter_a]
        usableChunkSize_def SAFE_CHUNK_SIZE_BYTES_def METADATA_OVERHEAD_BYTES_def)
  have "\<exists>qs. splitLoop MAX_PARTS ?C 1 [] = Inr qs \<and> length qs = 2"
    by (simp add: splitLoop_replicate [OF plainLetter_a] MAX_PARTS_def)
  then obtain qs where "splitLoop MAX_PARTS ?C 1 [] = Inr qs" and "length qs = 2"
    by blast
  with ns have
    sp: "splitContentIntoParts ?C = Inr (map (\<lambda>part. part\<lparr>cp_totalParts := length qs\<rparr>) qs)"
    by (simp add: splitContentIntoParts_def)
  from splitContentIntoParts_reassembles [OF ns sp] \<open>length qs = 2\<close> ns sp
  show ?thesis by (simp add: upt_rec)
qed

text \<open>
  C4. The claim: \<open>splitContentIntoParts\<close> returns whenever the split has between 1 and 100
  parts, and throws only when it would have more than 100. The text of 100 full chunks of
  the letter a (5,734,400 units) splits into exactly 100 parts that reassemble it, as the
  loop shows when its limit is 101; with the limit 100 of the source the call throws
  after the hundredth part is pushed, while nothing remains to split.
\<close>

theorem splitContentIntoParts_throws_at_100_parts:
  "splitContentIntoParts (replicate (100 * usableChunkSize) 0x61) = Inl TooManyParts \<and>
   (\<exists>ps. splitLoop 101 (replicate (100 * usableChunkSize) 0x61) 1 [] = Inr ps \<and>
         length ps = 100 \<and>
         concat (map cp_content ps) = replicate (100 * usableChunkSize) 0x61)"
proof -
  let ?C = "replicate (100 * usableChunkSize) (0x61 :: utf16)"
  have ns: "needsSplitting ?C"
    by (simp add: needsSplitting_def calculateByteSize_replicate [OF plainLetter_a]
        usableChunkSize_def SAFE_CHUNK_SIZE_BYTES_def METADATA_OVERHEAD_BYTES_def)
  have "splitLoop MAX_PARTS ?C 1 [] = Inl TooManyParts"
    by (simp add: splitLoop_replicate [OF plainLetter_a] MAX_PARTS_def)
  with ns have throws: "splitContentIntoParts ?C = Inl TooManyParts"
    by (simp add: splitContentIntoParts_def)
  have "\<exists>ps. splitLoop 101 ?C 1 [] = Inr ps \<and> length ps = 100"
    by (simp add: splitLoop_replicate [OF plainLetter_a])
  then obtain ps where ps: "splitLoop 101 ?C 1 [] = Inr ps" and len: "length ps = 100"
    by blast
  from splitLoop_concat [OF ps] have "concat (map cp_content ps) = ?C" by simp
  with throws ps len show ?thesis by blast
qed

text \<open>One chunk less, 99 parts, is the longest such text the call still returns.\<close>

lemma splitContentIntoParts_returns_at_99_parts:
  "\<exists>ps. splitContentIntoParts (replicate (99 * usableChunkSize) 0x61) = Inr ps \<and>
        length ps = 99"
proof -
  let ?C = "replicate (99 * usableChunkSize) (0x61 :: utf16)"
  have ns: "needsSplitting ?C"
    by (simp add: needsSplitting_def calculateByteSize_replicate [OF plainLetter_a]
        usableChunkSize_def SAFE_CHUNK_SIZE_BYTES_def METADATA_OVERHEAD_BYTES_def)
  have "\<exists>qs. splitLoop MAX_PARTS ?C 1 [] = Inr qs \<and> length qs = 99"
    by (simp add: splitLoop_replicate [OF plainLetter_a] MAX_PARTS_def)
  with ns show ?thesis
    by (auto simp: splitContentIntoParts_def)
qed

section \<open>Encoding work of the boundary splitter\<close>

text \<open>
  How much text \<open>findSplitPosition\<close> hands to \<open>TextEncoder.encode\<close>, counted in code
  units: the time functions below follow \<open>markerLoop\<close> and \<open>charLoop\<close> round by round and
  add, for each call of the encoder in the round, the length of the string it is given.
  In the marker loop that string is \<open>content.substring(0, posAfterMarker)\<close>, measured by
  \<open>calculateByteSize\<close>; in the character loop it is the one code point at \<open>charPos\<close>.
\<close>

function T_markerLoop :: "boundary \<Rightarrow> jsstring \<Rightarrow> nat \<Rightarrow> nat \<Rightarrow> nat \<Rightarrow> nat" where
  "T_markerLoop b content targetSize bestSplitPos searchPos =
     (if searchPos < length content then
        (case nextMarker (markersOf b) content searchPos None of
           None \<Rightarrow> 0
         | Some (pos, m) \<Rightarrow>
             length (take (pos + length m) content) +
             (if calculateByteSize (take (pos + length m) content) \<le> targetSize
              then T_markerLoop b content targetSize (pos + length m) (pos + length m)
              else 0))
      else 0)"
  by pat_completeness auto
termination
proof (relation "measure (\<lambda>(b, content, targetSize, bestSplitPos, searchPos). length content - searchPos)")
  show "wf (measure (\<lambda>(b, content, targetSize, bestSplitPos, searchPos). length content - searchPos))"
    by simp
next
  fix b :: boundary and content :: jsstring and targetSize bestSplitPos searchPos :: nat
    and x2 :: "nat \<times> jsstring" and pos :: nat and m :: jsstring
  assume "searchPos < length content"
    and "nextMarker (markersOf b) content searchPos None = Some x2"
    and "(pos, m) = x2"
  then have "searchPos < pos + length m"
    using nextMarker_advances [of b content searchPos pos m] by simp
  with \<open>searchPos < length content\<close>
  show "((b, content, targetSize, pos + length m, pos + length m),
         (b, content, targetSize, bestSplitPos, searchPos))
        \<in> measure (\<lambda>(b, content, targetSize, bestSplitPos, searchPos). length content - searchPos)"
    by simp
qed

declare T_markerLoop.simps [simp del]

fun T_charLoop :: "jsstring \<Rightarrow> nat \<Rightarrow> nat \<Rightarrow> nat" where
  "T_charLoop [] targetSize byteCount = 0"
| "T_charLoop (c # cs) targetSize byteCount =
     (if isHighSurrogate c \<and> cs \<noteq> [] \<and> isLowSurrogate (hd cs)
      then 2 + (if byteCount + 4 > targetSize then 0
                else T_charLoop (tl cs) targetSize (byteCount + 4))
      else 1 + (if byteCount + unitBytes c > targetSize then 0
                else T_charLoop cs targetSize (byteCount + unitBytes c)))"

definition T_findSplitPosition :: "jsstring \<Rightarrow> nat \<Rightarrow> boundary \<Rightarrow> nat" where
  "T_findSplitPosition content targetSize b =
     (case b of
        BCharacter \<Rightarrow> T_charLoop content targetSize 0
      | _ \<Rightarrow> T_markerLoop b content targetSize 0 0)"

lemma T_charLoop_linear: "T_charLoop s targetSize byteCount \<le> length s"
proof (induction s targetSize byteCount rule: T_charLoop.induct)
  case (1 targetSize byteCount)
  show ?case by simp
next
  case (2 c cs targetSize byteCount)
  show ?case
  proof (cases "isHighSurrogate c \<and> cs \<noteq> [] \<and> isLowSurrogate (hd cs)")
    case True
    then obtain d ds where cs: "cs = d # ds" by (cases cs) auto
    from True 2(1) cs show ?thesis by (auto split: if_splits)
  next
    case False
    with 2(2) show ?thesis by (auto split: if_splits)
  qed
qed


text \<open>On a text of \<open>n\<close> spaces every unit is a word marker, and each round encodes one more unit than the round before.\<close>

lemma indexOf_spaces:
  "s < n \<Longrightarrow> indexOf (replicate n c) [c] s = Some s"
  by (cases "n - s") (simp_all add: indexOf_def)

lemma utf8Length_spaces: "utf8Length (replicate n 0x20) = n"
  by (induction n) (simp_all add: unitBytes_def isHighSurrogate_def)

lemma T_markerLoop_spaces:
  "n + (3 * n + 99) div 100 \<le> targetSize \<Longrightarrow> s \<le> n \<Longrightarrow>
   T_markerLoop BWord (replicate n 0x20) targetSize s s = (\<Sum>i = s + 1 .. n. i)"
proof (induction "n - s" arbitrary: s)
  case 0
  then show ?case by (simp add: T_markerLoop.simps)
next
  case (Suc d)
  then have lt: "s < n" by simp
  have fit: "calculateByteSize (replicate (Suc s) 0x20) \<le> targetSize"
  proof -
    have "Suc s + (3 * Suc s + 99) div 100 \<le> n + (3 * n + 99) div 100"
      using lt by (intro add_mono div_le_mono) simp_all
    with Suc.prems show ?thesis
      by (simp add: calculateByteSize_def utf8Length_spaces del: replicate_Suc)
  qed
  have d: "d = n - Suc s" using Suc.hyps by simp
  have "T_markerLoop BWord (replicate n 0x20) targetSize s s
      = Suc s + T_markerLoop BWord (replicate n 0x20) targetSize (Suc s) (Suc s)"
    using lt fit
    by (subst T_markerLoop.simps) (simp add: lit_def indexOf_spaces min_def del: replicate_Suc)
  also have "\<dots> = Suc s + (\<Sum>i = Suc s + 1 .. n. i)"
    using Suc.hyps(1) [OF d Suc.prems(1)] lt by simp
  also have "\<dots> = (\<Sum>i = s + 1 .. n. i)"
    using lt by (simp add: sum.atLeast_Suc_atMost)
  finally show ?case .
qed

lemma T_findSplitPosition_spaces: "T_findSplitPosition (replicate n 0x20) (2 * n) BWord = n * (n + 1) div 2"
proof -
  have "n + (3 * n + 99) div 100 \<le> 2 * n" by arith
  from T_markerLoop_spaces [OF this, of 0] show ?thesis
    by (simp add: T_findSplitPosition_def Sum_Icc_nat)
qed


text \<open>The same on a text of six units: three rounds encode the prefixes of length 2, 4 and 6.\<close>

lemma T_findSplitPosition_word_example:
  "T_findSplitPosition (lit ''a b c '') 100 BWord = 12 \<and> length (lit ''a b c '') = 6"
  by (simp add: T_findSplitPosition_def T_markerLoop.simps lit_def indexOf_def
      calculateByteSize_def unitBytes_def isHighSurrogate_def)

text \<open>
  C9. The claim: for every text, target budget and boundary kind \<open>findSplitPosition\<close> is
  linear in the length of the text and never measures a growing prefix from scratch.
  It fails for the marker kinds: no constant \<open>c\<close> bounds the encoded units by
  \<open>c * (length + 1)\<close>, since \<open>n\<close> spaces under the word kind cost \<open>n * (n + 1) div 2\<close>.
\<close>

theorem findSplitPosition_not_linear:
  "\<not> (\<exists>c. \<forall>content targetSize b.
        T_findSplitPosition content targetSize b \<le> c * (length content + 1))"
proof
  assume "\<exists>c. \<forall>content targetSize b.
        T_findSplitPosition content targetSize b \<le> c * (length content + 1)"
  then obtain c where
    bound: "\<And>content targetSize b. T_findSplitPosition content targetSize b \<le> c * (length content + 1)"
    by blast
  let ?n = "2 * c + 1"
  from bound [of "replicate ?n 0x20" "2 * ?n" BWord]
  have "?n * (?n + 1) div 2 \<le> c * (?n + 1)"
    by (simp only: T_findSplitPosition_spaces length_replicate)
  moreover have "?n * (?n + 1) div 2 = (2 * c + 1) * (c + 1)"
  proof -
    have "?n * (?n + 1) = 2 * ((2 * c + 1) * (c + 1))" by (simp add: algebra_simps)
    then show ?thesis by simp
  qed
  ultimately have "(2 * c + 1) * (c + 1) \<le> c * (2 * c + 2)" by simp
  then show False by (simp add: algebra_simps)
qed


text \<open>
  C9 as amended: under the character kind every code point of the text is given to the
  encoder at most once, for every text and every target budget, so the encoded units
  never exceed the length of the text.
\<close>

theorem findSplitPosition_character_linear:
  "T_findSplitPosition content targetSize BCharacter \<le> length content"
  by (simp add: T_findSplitPosition_def T_charLoop_linear)

section \<open>Dual hash system\<close>

subsection \<open>Stripping the embedded manifest marker\<close>

text \<open>
  \<open>content.replace(/\n*<!--ARCHIVE-MANIFEST:[\s\S]*?-->/g, '')\<close>. A match at a position
  takes every line feed there, then needs the opener, then runs to the end of the first
  \<open>-->\<close> after it (the quantifier is lazy); giving back line feeds cannot help, since the
  unit after fewer of them is a line feed and not \<open><\<close>. \<open>matchAt\<close> gives the text after
  such a match. With the \<open>g\<close> flag the scan goes on after each match, and a unit where no
  match starts is kept. A value that is not a string, and the empty string, are
  returned as they are.
\<close>

datatype js_value = JUndefined | JNull | JBoolean bool | JNumber int | JString jsstring

definition MANIFEST_OPEN :: jsstring where
  "MANIFEST_OPEN = lit ''<!--ARCHIVE-MANIFEST:''"

definition MANIFEST_CLOSE :: jsstring where
  "MANIFEST_CLOSE = lit ''-->''"

fun afterClose :: "jsstring \<Rightarrow> jsstring option" where
  "afterClose [] = None"
| "afterClose (c # cs) =
     (if take (length MANIFEST_CLOSE) (c # cs) = MANIFEST_CLOSE
      then Some (drop (length MANIFEST_CLOSE) (c # cs))
      else afterClose cs)"

definition matchAt :: "jsstring \<Rightarrow> jsstring option" where
  "matchAt s =
     (if take (length MANIFEST_OPEN) (dropWhile (\<lambda>c. c = LF) s) = MANIFEST_OPEN
      then afterClose (drop (length MANIFEST_OPEN) (dropWhile (\<lambda>c. c = LF) s))
      else None)"

lemma afterClose_shorter: "afterClose s = Some r \<Longrightarrow> length r < length s"
  by (induction s) (auto simp: MANIFEST_CLOSE_def lit_def split: if_splits)

lemma matchAt_shorter: "matchAt s = Some r \<Longrightarrow> length r < length s"
proof -
  assume "matchAt s = Some r"
  then have "afterClose (drop (length MANIFEST_OPEN) (dropWhile (\<lambda>c. c = LF) s)) = Some r"
    by (simp add: matchAt_def split: if_splits)
  from afterClose_shorter [OF this]
  have "length r < length (dropWhile (\<lambda>c. c = LF) s)" by simp
  also have "\<dots> \<le> length s" by (rule length_dropWhile_le)
  finally show ?thesis .
qed

function stripMarkers :: "jsstring \<Rightarrow> jsstring" where
  "stripMarkers [] = []"
| "stripMarkers (c # cs) =
     (case matchAt (c # cs) of
        Some rest \<Rightarrow> stripMarkers rest
      | None \<Rightarrow> c # stripMarkers cs)"
  by pat_completeness auto
termination
  by (relation "measure length") (auto dest: matchAt_shorter)

definition stripManifestComment :: "js_value \<Rightarrow> js_value" where
  "stripManifestComment content =
     (case content of
        JString s \<Rightarrow> if s = [] then content else JString (stripMarkers s)
      | _ \<Rightarrow> content)"

definition jsIncludes :: "jsstring \<Rightarrow> jsstring \<Rightarrow> bool" where
  "jsIncludes s m = (indexOf s m 0 \<noteq> None)"

text \<open>
  Whether the pattern of the replace has a match somewhere in a text, as
  \<open>/\n*<!--ARCHIVE-MANIFEST:[\s\S]*?-->/.test(s)\<close> tells: a complete marker, with its opener
  and a closer after it.
\<close>

fun hasMarker :: "jsstring \<Rightarrow> bool" where
  "hasMarker [] = False"
| "hasMarker (c # cs) = (case matchAt (c # cs) of Some rest \<Rightarrow> True | None \<Rightarrow> hasMarker cs)"


lemma indexOfFrom_None_shift:
  "indexOfFrom m s i = None \<Longrightarrow> indexOfFrom m s j = None"
  by (induction s arbitrary: i j) (auto split: if_splits)

lemma indexOfFrom_None_drop:
  "indexOfFrom m s i = None \<Longrightarrow> take (length m) (drop k s) \<noteq> m"
proof (induction s arbitrary: i k)
  case Nil
  then show ?case by (auto split: if_splits)
next
  case (Cons c cs)
  then show ?case by (cases k) (auto split: if_splits)
qed

lemma matchAt_no_opener:
  assumes "\<not> jsIncludes s MANIFEST_OPEN"
  shows "matchAt s = None"
proof -
  from assms have "indexOfFrom MANIFEST_OPEN s 0 = None"
    by (simp add: jsIncludes_def indexOf_def)
  from indexOfFrom_None_drop [OF this, of "length (takeWhile (\<lambda>c. c = LF) s)"]
  show ?thesis by (simp add: matchAt_def dropWhile_eq_drop)
qed

lemma stripMarkers_no_opener:
  "\<not> jsIncludes s MANIFEST_OPEN \<Longrightarrow> stripMarkers s = s"
proof (induction s)
  case Nil
  show ?case by simp
next
  case (Cons c cs)
  from Cons.prems have "indexOfFrom MANIFEST_OPEN (c # cs) 0 = None"
    by (simp add: jsIncludes_def indexOf_def)
  then have "indexOfFrom MANIFEST_OPEN cs (Suc 0) = None"
    by (simp split: if_splits)
  then have "\<not> jsIncludes cs MANIFEST_OPEN"
    by (simp add: jsIncludes_def indexOf_def indexOfFrom_None_shift [of _ _ "Suc 0" 0])
  with Cons.IH matchAt_no_opener [OF Cons.prems] show ?case by simp
qed

subsection \<open>Fixed points of the strip\<close>

text \<open>
  A pass never lengthens a text and shortens every text that holds a complete marker, so
  the texts a pass leaves as they are, are those without a complete marker.
\<close>

lemma stripMarkers_length: "length (stripMarkers s) \<le> length s"
proof (induction s rule: stripMarkers.induct)
  case 1
  show ?case by simp
next
  case (2 c cs)
  show ?case
  proof (cases "matchAt (c # cs)")
    case None
    with 2 show ?thesis by simp
  next
    case (Some rest)
    with 2 have "length (stripMarkers rest) \<le> length rest" by simp
    with matchAt_shorter [OF Some] Some show ?thesis by simp
  qed
qed

lemma stripMarkers_shrinks: "hasMarker s \<Longrightarrow> length (stripMarkers s) < length s"
proof (induction s)
  case Nil
  then show ?case by simp
next
  case (Cons c cs)
  show ?case
  proof (cases "matchAt (c # cs)")
    case None
    with Cons show ?thesis by simp
  next
    case (Some rest)
    from matchAt_shorter [OF Some] stripMarkers_length [of rest] Some show ?thesis by simp
  qed
qed

lemma stripMarkers_no_marker: "\<not> hasMarker s \<Longrightarrow> stripMarkers s = s"
  by (induction s) (auto split: option.splits)

lemma stripMarkers_fixed: "(stripMarkers s = s) = (\<not> hasMarker s)"
  using stripMarkers_shrinks [of s] stripMarkers_no_marker [of s] by auto

lemma stripManifestComment_fixed:
  "(stripManifestComment (stripManifestComment x) = stripManifestComment x) =
     (case x of JString s \<Rightarrow> \<not> hasMarker (stripMarkers s) | _ \<Rightarrow> True)"
proof (cases x)
  case (JString s)
  show ?thesis
  proof (cases "s = []")
    case True
    with JString show ?thesis by (simp add: stripManifestComment_def)
  next
    case False
    with JString have "stripManifestComment x = JString (stripMarkers s)"
      by (simp add: stripManifestComment_def)
    moreover have "(stripManifestComment (JString (stripMarkers s)) = JString (stripMarkers s))
        = (\<not> hasMarker (stripMarkers s))"
      by (cases "stripMarkers s = []") (simp_all add: stripManifestComment_def stripMarkers_fixed)
    ultimately show ?thesis using JString by simp
  qed
qed (simp_all add: stripManifestComment_def)

text \<open>
  A complete marker holds an opener and a closer. A published body whose content holds no
  opener and whose compact manifest holds no closer is stripped to a prefix of the
  content: the one match runs from the line feeds that end the content to the end of the
  body.
\<close>

lemma not_includes_drop:
  "\<not> jsIncludes s m \<Longrightarrow> take (length m) (drop k s) \<noteq> m"
  by (simp add: jsIncludes_def indexOf_def indexOfFrom_None_drop)

lemma afterClose_occurs:
  "afterClose r = Some x \<Longrightarrow> \<exists>k. take (length MANIFEST_CLOSE) (drop k r) = MANIFEST_CLOSE"
proof (induction r)
  case Nil
  then show ?case by simp
next
  case (Cons c cs)
  show ?case
  proof (cases "take (length MANIFEST_CLOSE) (c # cs) = MANIFEST_CLOSE")
    case True
    then have "take (length MANIFEST_CLOSE) (drop 0 (c # cs)) = MANIFEST_CLOSE" by simp
    then show ?thesis by blast
  next
    case False
    with Cons.prems have "afterClose cs = Some x" by simp
    from Cons.IH [OF this] obtain k where
      "take (length MANIFEST_CLOSE) (drop k cs) = MANIFEST_CLOSE" by blast
    then have "take (length MANIFEST_CLOSE) (drop (Suc k) (c # cs)) = MANIFEST_CLOSE" by simp
    then show ?thesis by blast
  qed
qed

lemma matchAt_occurs:
  assumes "matchAt s = Some x"
  shows "\<exists>j. take (length MANIFEST_OPEN) (drop j s) = MANIFEST_OPEN"
    and "\<exists>k. take (length MANIFEST_CLOSE) (drop k s) = MANIFEST_CLOSE"
proof -
  let ?j = "length (takeWhile (\<lambda>c. c = LF) s)"
  from assms have op: "take (length MANIFEST_OPEN) (drop ?j s) = MANIFEST_OPEN"
    and cl: "afterClose (drop (length MANIFEST_OPEN) (drop ?j s)) = Some x"
    by (simp_all add: matchAt_def dropWhile_eq_drop split: if_splits)
  from op show "\<exists>j. take (length MANIFEST_OPEN) (drop j s) = MANIFEST_OPEN" by blast
  from afterClose_occurs [OF cl] obtain k where
    "take (length MANIFEST_CLOSE) (drop (k + (length MANIFEST_OPEN + ?j)) s) = MANIFEST_CLOSE"
    by (auto simp: add.commute)
  then show "\<exists>k. take (length MANIFEST_CLOSE) (drop k s) = MANIFEST_CLOSE" by blast
qed

lemma hasMarker_occurs:
  assumes "hasMarker s"
  shows "\<exists>j. take (length MANIFEST_OPEN) (drop j s) = MANIFEST_OPEN"
    and "\<exists>k. take (length MANIFEST_CLOSE) (drop k s) = MANIFEST_CLOSE"
  using assms
proof (induction s)
  case Nil
  { case 1 then show ?case by simp }
  { case 2 then show ?case by simp }
next
  case (Cons c cs)
  { case 1
    show ?case
    proof (cases "matchAt (c # cs)")
      case (Some x)
      from matchAt_occurs(1) [OF this] show ?thesis .
    next
      case None
      with 1 have "hasMarker cs" by simp
      from Cons.IH(1) [OF this] obtain j where
        "take (length MANIFEST_OPEN) (drop j cs) = MANIFEST_OPEN" by blast
      then have "take (length MANIFEST_OPEN) (drop (Suc j) (c # cs)) = MANIFEST_OPEN" by simp
      then show ?thesis by blast
    qed }
  { case 2
    show ?case
    proof (cases "matchAt (c # cs)")
      case (Some x)
      from matchAt_occurs(2) [OF this] show ?thesis .
    next
      case None
      with 2 have "hasMarker cs" by simp
      from Cons.IH(2) [OF this] obtain k where
        "take (length MANIFEST_CLOSE) (drop k cs) = MANIFEST_CLOSE" by blast
      then have "take (length MANIFEST_CLOSE) (drop (Suc k) (c # cs)) = MANIFEST_CLOSE" by simp
      then show ?thesis by blast
    qed }
qed

lemma no_marker_without_opener: "\<not> jsIncludes s MANIFEST_OPEN \<Longrightarrow> \<not> hasMarker s"
  using hasMarker_occurs(1) [of s] not_includes_drop [of s MANIFEST_OPEN] by blast

lemma no_marker_without_closer: "\<not> jsIncludes s MANIFEST_CLOSE \<Longrightarrow> \<not> hasMarker s"
  using hasMarker_occurs(2) [of s] not_includes_drop [of s MANIFEST_CLOSE] by blast


lemma afterClose_appended:
  "\<forall>k. take (length MANIFEST_CLOSE) (drop k u) \<noteq> MANIFEST_CLOSE \<Longrightarrow>
   afterClose (u @ MANIFEST_CLOSE) = Some []"
proof (induction u)
  case Nil
  show ?case by (simp add: MANIFEST_CLOSE_def lit_def)
next
  case (Cons c cs)
  from Cons.prems have "take (length MANIFEST_CLOSE) (drop (Suc k) (c # cs)) \<noteq> MANIFEST_CLOSE" for k
    by blast
  then have "afterClose (cs @ MANIFEST_CLOSE) = Some []"
    using Cons.IH by simp
  moreover from Cons.prems have "take (length MANIFEST_CLOSE) (drop 0 (c # cs)) \<noteq> MANIFEST_CLOSE"
    by blast
  then have "take (length MANIFEST_CLOSE) ((c # cs) @ MANIFEST_CLOSE) \<noteq> MANIFEST_CLOSE"
    by (cases cs; cases "tl cs") (auto simp: MANIFEST_CLOSE_def lit_def)
  ultimately show ?case by simp
qed

lemma LF_not_in_opener: "LF \<notin> set MANIFEST_OPEN"
  by (simp add: MANIFEST_OPEN_def lit_def)

lemma matchAt_published:
  assumes no_op: "\<forall>k. take (length MANIFEST_OPEN) (drop k content) \<noteq> MANIFEST_OPEN"
  shows "matchAt (content @ LF # LF # MANIFEST_OPEN @ rest) =
           (if list_all (\<lambda>c. c = LF) content then afterClose rest else None)"
proof (cases "list_all (\<lambda>c. c = LF) content")
  case True
  then have "dropWhile (\<lambda>c. c = LF) (content @ LF # LF # MANIFEST_OPEN @ rest)
      = dropWhile (\<lambda>c. c = LF) (LF # LF # MANIFEST_OPEN @ rest)"
    by (simp add: dropWhile_append2 list_all_iff)
  also have "\<dots> = MANIFEST_OPEN @ rest"
    by (simp add: MANIFEST_OPEN_def lit_def)
  finally show ?thesis using True by (simp add: matchAt_def)
next
  case False
  then obtain x where x: "x \<in> set content" "x \<noteq> LF" by (auto simp: list_all_iff)
  let ?d = "dropWhile (\<lambda>c. c = LF) content"
  let ?ys = "LF # LF # MANIFEST_OPEN @ rest"
  from x have d: "dropWhile (\<lambda>c. c = LF) (content @ ?ys) = ?d @ ?ys"
    by (simp add: dropWhile_append1)
  have "take (length MANIFEST_OPEN) (?d @ ?ys) \<noteq> MANIFEST_OPEN"
  proof (cases "length MANIFEST_OPEN \<le> length ?d")
    case True
    then have "take (length MANIFEST_OPEN) (?d @ ?ys) = take (length MANIFEST_OPEN) ?d" by simp
    also have "\<dots> = take (length MANIFEST_OPEN)
        (drop (length (takeWhile (\<lambda>c. c = LF) content)) content)"
      by (simp add: dropWhile_eq_drop)
    finally show ?thesis using no_op by simp
  next
    case False
    then have "take (length MANIFEST_OPEN) (?d @ ?ys)
        = ?d @ LF # take (length MANIFEST_OPEN - length ?d - 1) (LF # MANIFEST_OPEN @ rest)"
      by (simp add: take_Cons')
    then have "LF \<in> set (take (length MANIFEST_OPEN) (?d @ ?ys))" by simp
    with LF_not_in_opener show ?thesis by metis
  qed
  with d False show ?thesis by (simp add: matchAt_def)
qed

lemma stripMarkers_published:
  assumes "\<forall>k. take (length MANIFEST_OPEN) (drop k content) \<noteq> MANIFEST_OPEN"
    and "afterClose rest = Some []"
  shows "\<exists>p. stripMarkers (content @ LF # LF # MANIFEST_OPEN @ rest) = take p content"
  using assms(1)
proof (induction content)
  case Nil
  from matchAt_published [OF Nil, of rest] assms(2)
  have "matchAt (LF # LF # MANIFEST_OPEN @ rest) = Some []" by simp
  then show ?case by simp
next
  case (Cons c cs)
  show ?case
  proof (cases "list_all (\<lambda>c. c = LF) (c # cs)")
    case True
    have "matchAt ((c # cs) @ LF # LF # MANIFEST_OPEN @ rest) = Some []"
      unfolding matchAt_published [OF Cons.prems, of rest] using True assms(2)
      by (simp only: if_True)
    then have "stripMarkers ((c # cs) @ LF # LF # MANIFEST_OPEN @ rest) = take 0 (c # cs)"
      by simp
    then show ?thesis by blast
  next
    case False
    have none: "matchAt ((c # cs) @ LF # LF # MANIFEST_OPEN @ rest) = None"
      unfolding matchAt_published [OF Cons.prems, of rest] using False by (simp only: if_False)
    from Cons.prems have "take (length MANIFEST_OPEN) (drop (Suc k) (c # cs)) \<noteq> MANIFEST_OPEN" for k
      by blast
    then have "\<forall>k. take (length MANIFEST_OPEN) (drop k cs) \<noteq> MANIFEST_OPEN" by simp
    from Cons.IH [OF this] obtain p where
      "stripMarkers (cs @ LF # LF # MANIFEST_OPEN @ rest) = take p cs" by blast
    with none have "stripMarkers ((c # cs) @ LF # LF # MANIFEST_OPEN @ rest) = take (Suc p) (c # cs)"
      by simp
    then show ?thesis by blast
  qed
qed

lemma no_marker_in_prefix:
  assumes "\<forall>k. take (length MANIFEST_OPEN) (drop k content) \<noteq> MANIFEST_OPEN"
  shows "\<not> hasMarker (take p content)"
proof
  assume "hasMarker (take p content)"
  from hasMarker_occurs(1) [OF this] obtain j where
    j: "take (length MANIFEST_OPEN) (drop j (take p content)) = MANIFEST_OPEN" by blast
  then have "length (take (length MANIFEST_OPEN) (drop j (take p content))) = length MANIFEST_OPEN"
    by simp
  then have "length MANIFEST_OPEN \<le> p - j" by simp
  then have "take (length MANIFEST_OPEN) (drop j (take p content))
      = take (length MANIFEST_OPEN) (drop j content)"
    by (simp add: drop_take min_def)
  with j assms show False by simp
qed

lemma published_body_strips_clean:
  assumes "\<not> jsIncludes content MANIFEST_OPEN" and "\<not> jsIncludes compact MANIFEST_CLOSE"
  shows "\<not> hasMarker
           (stripMarkers (content @ [LF, LF] @ MANIFEST_OPEN @ compact @ MANIFEST_CLOSE))"
proof -
  from assms(1) have op: "\<forall>k. take (length MANIFEST_OPEN) (drop k content) \<noteq> MANIFEST_OPEN"
    by (simp add: not_includes_drop)
  from assms(2) have "\<forall>k. take (length MANIFEST_CLOSE) (drop k compact) \<noteq> MANIFEST_CLOSE"
    by (simp add: not_includes_drop)
  then have "afterClose (compact @ MANIFEST_CLOSE) = Some []" by (rule afterClose_appended)
  from stripMarkers_published [OF op this] obtain p where
    "stripMarkers (content @ LF # LF # MANIFEST_OPEN @ compact @ MANIFEST_CLOSE) = take p content"
    by blast
  with no_marker_in_prefix [OF op, of p] show ?thesis by simp
qed

subsection \<open>Claims on the strip\<close>

text \<open>
  C10. The claim: \<open>stripManifestComment\<close> is idempotent on every input. It fails where
  deleting one marker joins the text around it into another: the first pass leaves
  \<open><!--ARCHIVE-MANIFEST:y-->\<close> here, and the second pass deletes it.
\<close>

theorem stripManifestComment_not_idempotent:
  "stripManifestComment (stripManifestComment
      (JString (lit ''<!--ARCHIVE-<!--ARCHIVE-MANIFEST:x-->MANIFEST:y-->'')))
   \<noteq> stripManifestComment
      (JString (lit ''<!--ARCHIVE-<!--ARCHIVE-MANIFEST:x-->MANIFEST:y-->''))"
  by (simp add: stripManifestComment_def matchAt_def MANIFEST_OPEN_def MANIFEST_CLOSE_def lit_def)

text \<open>
  C10 as amended: stripping twice equals stripping once exactly when the value is not a
  string or the text left by the first pass contains no complete marker. This is so for
  every string that does not contain \<open>-->\<close>, hence also for an opener that is never
  closed, and for every published body, content then two line feeds then the marker,
  whose content contains no opener and whose compact manifest contains no \<open>-->\<close>.
\<close>

theorem stripManifestComment_idempotent:
  "((stripManifestComment (stripManifestComment x) = stripManifestComment x) =
      (case x of JString s \<Rightarrow> \<not> hasMarker (stripMarkers s) | _ \<Rightarrow> True)) \<and>
   (\<not> jsIncludes s MANIFEST_CLOSE \<longrightarrow>
      stripManifestComment (stripManifestComment (JString s)) = stripManifestComment (JString s)) \<and>
   (\<not> jsIncludes content MANIFEST_OPEN \<and> \<not> jsIncludes compact MANIFEST_CLOSE \<longrightarrow>
      stripManifestComment (stripManifestComment
        (JString (content @ [LF, LF] @ MANIFEST_OPEN @ compact @ MANIFEST_CLOSE)))
      = stripManifestComment
        (JString (content @ [LF, LF] @ MANIFEST_OPEN @ compact @ MANIFEST_CLOSE)))"
proof (intro conjI impI)
  show "(stripManifestComment (stripManifestComment x) = stripManifestComment x) =
      (case x of JString s \<Rightarrow> \<not> hasMarker (stripMarkers s) | _ \<Rightarrow> True)"
    by (rule stripManifestComment_fixed)
next
  assume "\<not> jsIncludes s MANIFEST_CLOSE"
  then have "\<not> hasMarker s" by (rule no_marker_without_closer)
  then have "\<not> hasMarker (stripMarkers s)" by (simp add: stripMarkers_no_marker)
  then show "stripManifestComment (stripManifestComment (JString s))
      = stripManifestComment (JString s)"
    by (simp add: stripManifestComment_fixed)
next
  assume "\<not> jsIncludes content MANIFEST_OPEN \<and> \<not> jsIncludes compact MANIFEST_CLOSE"
  then have "\<not> hasMarker
      (stripMarkers (content @ [LF, LF] @ MANIFEST_OPEN @ compact @ MANIFEST_CLOSE))"
    using published_body_strips_clean [of content compact] by blast
  then show "stripManifestComment (stripManifestComment
        (JString (content @ [LF, LF] @ MANIFEST_OPEN @ compact @ MANIFEST_CLOSE)))
      = stripManifestComment
        (JString (content @ [LF, LF] @ MANIFEST_OPEN @ compact @ MANIFEST_CLOSE))"
    by (simp add: stripManifestComment_fixed)
qed

theorem stripManifestComment_idempotent_witness:
  "jsIncludes (stripMarkers (lit ''Hi'' @ [LF, LF] @ lit ''<!--ARCHIVE-MANIFEST:{'')) MANIFEST_OPEN \<and>
   \<not> hasMarker (stripMarkers (lit ''Hi'' @ [LF, LF] @ lit ''<!--ARCHIVE-MANIFEST:{'')) \<and>
   \<not> jsIncludes (lit ''Hi'' @ [LF, LF] @ lit ''<!--ARCHIVE-MANIFEST:{'') MANIFEST_CLOSE \<and>
   \<not> jsIncludes (lit ''Hi'') MANIFEST_OPEN \<and>
   \<not> jsIncludes (lit ''{}'') MANIFEST_CLOSE \<and>
   stripManifestComment (stripManifestComment
       (JString (lit ''Hi'' @ [LF, LF] @ lit ''<!--ARCHIVE-MANIFEST:{'')))
     = stripManifestComment (JString (lit ''Hi'' @ [LF, LF] @ lit ''<!--ARCHIVE-MANIFEST:{'')) \<and>
   stripManifestComment
       (JString (lit ''Hi'' @ [LF, LF] @ MANIFEST_OPEN @ lit ''{}'' @ MANIFEST_CLOSE))
     = JString (lit ''Hi'') \<and>
   stripManifestComment (stripManifestComment
       (JString (lit ''Hi'' @ [LF, LF] @ MANIFEST_OPEN @ lit ''{}'' @ MANIFEST_CLOSE)))
     = stripManifestComment
       (JString (lit ''Hi'' @ [LF, LF] @ MANIFEST_OPEN @ lit ''{}'' @ MANIFEST_CLOSE))"
proof -
  let ?cut = "lit ''Hi'' @ [LF, LF] @ lit ''<!--ARCHIVE-MANIFEST:{''"
  let ?body = "lit ''Hi'' @ [LF, LF] @ MANIFEST_OPEN @ lit ''{}'' @ MANIFEST_CLOSE"
  have kept: "stripMarkers ?cut = ?cut"
    by (simp add: matchAt_def MANIFEST_OPEN_def MANIFEST_CLOSE_def lit_def)
  have opener: "jsIncludes (stripMarkers ?cut) MANIFEST_OPEN"
    unfolding kept by (simp add: jsIncludes_def indexOf_def MANIFEST_OPEN_def lit_def)
  have a: "\<not> jsIncludes ?cut MANIFEST_CLOSE"
    by (simp add: jsIncludes_def indexOf_def MANIFEST_CLOSE_def lit_def)
  have b: "\<not> jsIncludes (lit ''Hi'') MANIFEST_OPEN"
    by (simp add: jsIncludes_def indexOf_def MANIFEST_OPEN_def lit_def)
  have c: "\<not> jsIncludes (lit ''{}'') MANIFEST_CLOSE"
    by (simp add: jsIncludes_def indexOf_def MANIFEST_CLOSE_def lit_def)
  have one: "stripManifestComment (JString ?body) = JString (lit ''Hi'')"
    by (simp add: stripManifestComment_def matchAt_def MANIFEST_OPEN_def MANIFEST_CLOSE_def
        lit_def)
  note t = stripManifestComment_idempotent [of "JString ?cut" ?cut "lit ''Hi''" "lit ''{}''"]
  from t a have idem_cut: "stripManifestComment (stripManifestComment (JString ?cut))
      = stripManifestComment (JString ?cut)"
    by blast
  with t have clean: "\<not> hasMarker (stripMarkers ?cut)" by simp
  from t b c have idem_body: "stripManifestComment (stripManifestComment (JString ?body))
      = stripManifestComment (JString ?body)"
    by blast
  from opener clean a b c idem_cut one idem_body show ?thesis by (intro conjI)
qed

subsection \<open>Hashing\<close>

text \<open>
  A field of a JavaScript object that holds a string when it holds anything: absent
  (\<open>undefined\<close>), \<open>null\<close>, or the string.
\<close>

datatype 'a field = Undefined | Null | Value 'a

text \<open>
  The three digest functions are not part of the repository: SHA-256 comes from the Web
  Crypto API, BLAKE2b and MD5 from libraries that may not be loaded. They are parameters:
  each is a function of the string; \<open>env_blake2b\<close> is \<open>None\<close> when \<open>blakejs\<close> is missing and
  gives \<open>None\<close> on a string where \<open>blake2bHex\<close> throws; \<open>env_md5\<close> is \<open>None\<close> when \<open>md5\<close> is missing.
\<close>

record hash_env =
  env_sha256 :: "jsstring \<Rightarrow> jsstring"
  env_blake2b :: "(jsstring \<Rightarrow> jsstring option) option"
  env_md5 :: "(jsstring \<Rightarrow> jsstring) option"

record hash_triple =
  h_sha256 :: "jsstring field"
  h_blake2b :: "jsstring field"
  h_md5 :: "jsstring field"

record part_hash =
  ph_part_number :: nat
  ph_sha256 :: "jsstring field"
  ph_blake2b :: "jsstring field"
  ph_md5 :: "jsstring field"

datatype hash_error = Md5NotLoaded | EmptyContentParts

definition hashString :: "hash_env \<Rightarrow> jsstring \<Rightarrow> hash_error + hash_triple" where
  "hashString env input =
     (case env_md5 env of
        None \<Rightarrow> Inl Md5NotLoaded
      | Some md5 \<Rightarrow>
          Inr \<lparr>h_sha256 = Value (env_sha256 env input),
               h_blake2b =
                 (case env_blake2b env of
                    None \<Rightarrow> Null
                  | Some blake2bHex \<Rightarrow>
                      (case blake2bHex input of None \<Rightarrow> Null | Some d \<Rightarrow> Value d)),
               h_md5 = Value (md5 input)\<rparr>)"

text \<open>The \<open>fullContentHash\<close> of a manifest or of an expected hash set: the legacy string, or the object.\<close>

datatype full_hash = LegacyHash jsstring | HashObject hash_triple

text \<open>
  What \<open>hashMultiPartContent\<close> returns, and what \<open>verifyMultiPartContent\<close> accepts as
  expected: the same object in JavaScript, where the expected full hash may also be the
  legacy string. \<open>asExpected\<close> is that reading of a returned object.
\<close>

record multi_hashes =
  mh_partHashes :: "part_hash list"
  mh_fullContentHash :: hash_triple

record expected_hashes =
  eh_partHashes :: "part_hash list"
  eh_fullContentHash :: full_hash

definition asExpected :: "multi_hashes \<Rightarrow> expected_hashes" where
  "asExpected h =
     \<lparr>eh_partHashes = mh_partHashes h, eh_fullContentHash = HashObject (mh_fullContentHash h)\<rparr>"

text \<open>The loop \<open>for (let i = 0; i < contentParts.length; i++)\<close>; \<open>i\<close> is the index of the head.\<close>

fun hashParts :: "hash_env \<Rightarrow> nat \<Rightarrow> jsstring list \<Rightarrow> hash_error + part_hash list" where
  "hashParts env i [] = Inr []"
| "hashParts env i (partContent # rest) =
     (case hashString env partContent of
        Inl e \<Rightarrow> Inl e
      | Inr hashes \<Rightarrow>
          (case hashParts env (i + 1) rest of
             Inl e \<Rightarrow> Inl e
           | Inr others \<Rightarrow>
               Inr (\<lparr>ph_part_number = i + 1, ph_sha256 = h_sha256 hashes,
                      ph_blake2b = h_blake2b hashes, ph_md5 = h_md5 hashes\<rparr> # others)))"

definition hashMultiPartContent :: "hash_env \<Rightarrow> jsstring list \<Rightarrow> hash_error + multi_hashes" where
  "hashMultiPartContent env contentParts =
     (if contentParts = [] then Inl EmptyContentParts
      else
        (case hashParts env 0 contentParts of
           Inl e \<Rightarrow> Inl e
         | Inr partHashes \<Rightarrow>
             (case hashString env (concat contentParts) of
                Inl e \<Rightarrow> Inl e
              | Inr fullContentHash \<Rightarrow>
                  Inr \<lparr>mh_partHashes = partHashes,
                       mh_fullContentHash = fullContentHash\<rparr>)))"

text \<open>The \<open>matches\<close> object: \<open>sha256\<close> always, the other two only when the expected side has them.\<close>

record matches =
  m_sha256 :: bool
  m_blake2b :: "bool option"
  m_md5 :: "bool option"

definition allMatch :: "matches \<Rightarrow> bool" where
  "allMatch m = (m_sha256 m \<and> m_blake2b m \<noteq> Some False \<and> m_md5 m \<noteq> Some False)"

definition compareHashes ::
  "jsstring field \<Rightarrow> jsstring field \<Rightarrow> jsstring field \<Rightarrow>
   jsstring field \<Rightarrow> jsstring field \<Rightarrow> jsstring field \<Rightarrow> matches" where
  "compareHashes aSha aBlake aMd5 eSha eBlake eMd5 =
     \<lparr>m_sha256 = (aSha = eSha),
      m_blake2b = (if eBlake \<noteq> Undefined then Some (aBlake = eBlake) else None),
      m_md5 = (if eMd5 \<noteq> Undefined then Some (aMd5 = eMd5) else None)\<rparr>"

record part_verification =
  pv_partNumber :: nat
  pv_valid :: bool
  pv_matches :: matches

record verification =
  v_valid :: bool
  v_partVerifications :: "part_verification list"
  v_fullHashMatches :: matches
  v_allPartsValid :: bool
  v_fullHashValid :: bool

datatype verify_result = PartCountMismatch nat nat | Checked verification

text \<open>
  The loop over the part hashes; it runs only when both lists have the same length, so
  \<open>expectedHashes.partHashes[i]\<close> is there for every \<open>i\<close>.
\<close>

fun verifyParts :: "nat \<Rightarrow> part_hash list \<Rightarrow> part_hash list \<Rightarrow> part_verification list" where
  "verifyParts i (actual # as) (expected # es) =
     \<lparr>pv_partNumber = i + 1,
      pv_valid = allMatch (compareHashes (ph_sha256 actual) (ph_blake2b actual) (ph_md5 actual)
                             (ph_sha256 expected) (ph_blake2b expected) (ph_md5 expected)),
      pv_matches = compareHashes (ph_sha256 actual) (ph_blake2b actual) (ph_md5 actual)
                     (ph_sha256 expected) (ph_blake2b expected) (ph_md5 expected)\<rparr>
     # verifyParts (i + 1) as es"
| "verifyParts i _ _ = []"

definition verifyFull :: "hash_triple \<Rightarrow> full_hash \<Rightarrow> matches \<times> bool" where
  "verifyFull actual expected =
     (case expected of
        LegacyHash s \<Rightarrow>
          (\<lparr>m_sha256 = (h_sha256 actual = Value s), m_blake2b = None, m_md5 = None\<rparr>,
           h_sha256 actual = Value s)
      | HashObject e \<Rightarrow>
          (compareHashes (h_sha256 actual) (h_blake2b actual) (h_md5 actual)
             (h_sha256 e) (h_blake2b e) (h_md5 e),
           allMatch (compareHashes (h_sha256 actual) (h_blake2b actual) (h_md5 actual)
             (h_sha256 e) (h_blake2b e) (h_md5 e))))"

definition verifyMultiPartContent ::
  "hash_env \<Rightarrow> jsstring list \<Rightarrow> expected_hashes \<Rightarrow> hash_error + verify_result" where
  "verifyMultiPartContent env contentParts expectedHashes =
     (case hashMultiPartContent env contentParts of
        Inl e \<Rightarrow> Inl e
      | Inr actualHashes \<Rightarrow>
          if length (mh_partHashes actualHashes) \<noteq> length (eh_partHashes expectedHashes)
          then Inr (PartCountMismatch (length (eh_partHashes expectedHashes))
                      (length (mh_partHashes actualHashes)))
          else
            (let partVerifications =
                   verifyParts 0 (mh_partHashes actualHashes) (eh_partHashes expectedHashes);
                 full = verifyFull (mh_fullContentHash actualHashes)
                          (eh_fullContentHash expectedHashes);
                 allPartsValid = list_all pv_valid partVerifications
             in Inr (Checked
                  \<lparr>v_valid = (allPartsValid \<and> snd full),
                   v_partVerifications = partVerifications,
                   v_fullHashMatches = fst full,
                   v_allPartsValid = allPartsValid,
                   v_fullHashValid = snd full\<rparr>)))"

lemma compareHashes_self: "allMatch (compareHashes a b c a b c)"
  by (simp add: allMatch_def compareHashes_def)

lemma verifyParts_self: "list_all pv_valid (verifyParts i hs hs)"
  by (induction hs arbitrary: i) (simp_all add: compareHashes_self)

lemma verifyParts_length: "length (verifyParts i hs hs) = length hs"
  by (induction hs arbitrary: i) simp_all

lemma hashParts_total:
  "env_md5 env = Some f \<Longrightarrow> \<exists>hs. hashParts env i ps = Inr hs \<and> length hs = length ps"
proof (induction ps arbitrary: i)
  case Nil
  show ?case by simp
next
  case (Cons p ps)
  from Cons.IH [OF Cons.prems, of "i + 1"] obtain hs where
    "hashParts env (i + 1) ps = Inr hs" and "length hs = length ps"
    by blast
  with Cons.prems show ?case by (simp add: hashString_def)
qed

text \<open>
  C8. For every non-empty list of strings \<open>parts\<close>, with the digest libraries loaded
  (without \<open>md5\<close> the hashing itself throws), \<open>hashMultiPartContent\<close> returns, and
  verifying the same parts against what it returned reports fully valid: the \<open>valid\<close>
  flag is true, there is one verification entry per part and each is valid, and every
  digest of the full content that is compared matches.
\<close>

theorem verify_roundtrip:
  assumes "contentParts \<noteq> []" and "env_md5 env \<noteq> None"
  shows "\<exists>hashes r. hashMultiPartContent env contentParts = Inr hashes \<and>
           verifyMultiPartContent env contentParts (asExpected hashes) = Inr (Checked r) \<and>
           v_valid r \<and> v_allPartsValid r \<and> v_fullHashValid r \<and>
           length (v_partVerifications r) = length contentParts \<and>
           list_all pv_valid (v_partVerifications r) \<and>
           allMatch (v_fullHashMatches r)"
proof -
  from assms(2) obtain f where f: "env_md5 env = Some f" by auto
  from hashParts_total [OF f, of 0 contentParts] obtain hs where
    hs: "hashParts env 0 contentParts = Inr hs" and len: "length hs = length contentParts"
    by blast
  from f obtain full where full: "hashString env (concat contentParts) = Inr full"
    by (simp add: hashString_def)
  let ?h = "\<lparr>mh_partHashes = hs, mh_fullContentHash = full\<rparr>"
  from assms(1) hs full have h: "hashMultiPartContent env contentParts = Inr ?h"
    by (simp add: hashMultiPartContent_def)
  show ?thesis
    using h len
    by (simp add: verifyMultiPartContent_def verifyFull_def compareHashes_self asExpected_def
        verifyParts_self verifyParts_length Let_def)
qed

theorem verify_roundtrip_witness:
  "[lit ''ab'', lit ''c''] \<noteq> [] \<and>
   env_md5 \<lparr>env_sha256 = (\<lambda>s. s), env_blake2b = None, env_md5 = Some rev\<rparr> \<noteq> None \<and>
   (\<exists>hashes r.
      hashMultiPartContent \<lparr>env_sha256 = (\<lambda>s. s), env_blake2b = None, env_md5 = Some rev\<rparr>
        [lit ''ab'', lit ''c''] = Inr hashes \<and>
      verifyMultiPartContent \<lparr>env_sha256 = (\<lambda>s. s), env_blake2b = None, env_md5 = Some rev\<rparr>
        [lit ''ab'', lit ''c''] (asExpected hashes) = Inr (Checked r) \<and>
      v_valid r \<and> v_allPartsValid r \<and> v_fullHashValid r \<and>
      length (v_partVerifications r) = length [lit ''ab'', lit ''c''] \<and>
      list_all pv_valid (v_partVerifications r) \<and>
      allMatch (v_fullHashMatches r))"
  using verify_roundtrip [of "[lit ''ab'', lit ''c'']"
      "\<lparr>env_sha256 = (\<lambda>s. s), env_blake2b = None, env_md5 = Some rev\<rparr>"]
  by simp

section \<open>Series manifest\<close>

datatype part_status = Pending | Posted | Failed

text \<open>
  A PartRecord. \<open>permlink\<close> and \<open>author\<close> are \<open>null\<close> or a string; the empty string is as
  falsy as \<open>null\<close> wherever the source tests \<open>!part.permlink\<close>.
\<close>

record part_record =
  pr_part_number :: nat
  pr_permlink :: "jsstring option"
  pr_author :: "jsstring option"
  pr_status :: part_status
  pr_posted_at :: "jsstring option"

definition truthy :: "jsstring option \<Rightarrow> bool" where
  "truthy v = (v \<noteq> None \<and> v \<noteq> Some [])"

text \<open>
  The manifest, with the fields the operations below read or write (the creation time,
  the fixed architecture tag and the splitting metadata are not among them). A manifest of
  the model has \<open>parts.length == total_parts\<close>: the constructor of the pipeline rejects any
  other, and no operation changes the length of \<open>parts\<close> or \<open>total_parts\<close>; so
  \<open>total_parts\<close> is read off the list, and a write to \<open>parts[partIndex]\<close> that has passed
  the range check never goes past its end.
\<close>

record manifest =
  m_series_id :: jsstring
  m_version :: jsstring
  m_source_url :: jsstring
  m_title :: jsstring
  m_root_permlink :: "jsstring option"
  m_content_hash_full :: full_hash
  m_part_hashes :: "part_hash list"
  m_tags :: "jsstring list"
  m_parts :: "part_record list"

definition m_total_parts :: "manifest \<Rightarrow> nat" where
  "m_total_parts manifest = length (m_parts manifest)"

section \<open>Resume verifier\<close>

text \<open>
  \<open>window.getHiveContent(author, permlink)\<close> is the query collaborator: it throws, resolves
  to \<open>null\<close>, or resolves to a post whose \<open>body\<close> is a string (an absent body counts as the
  empty one: both fail the test \<open>!post.body\<close>).
\<close>

datatype fetched = FetchThrows | FetchNull | FetchPost jsstring

type_synonym fetcher = "jsstring option \<Rightarrow> jsstring option \<Rightarrow> fetched"

record verify_results =
  vr_verified :: "nat list"
  vr_failed :: "nat list"
  vr_missing :: "nat list"
  vr_totalChecked :: nat

datatype part_class = Verified | FailedCheck | FailedTwice | Missing

text \<open>
  One round of the loop of \<open>verifyCompletedParts\<close>, for the part at index \<open>i\<close>. The body
  that was fetched is passed to \<open>hashString\<close> as it is; an exception of the fetch or of
  the hash lands in the \<open>catch\<close>, which classifies the part as failed. On a mismatch
  the part is pushed to \<open>failed\<close> and the warning then prints
  \<open>expectedHash.sha256.substring(0, 16)\<close>: when the expected entry has no \<open>sha256\<close>
  string this throws inside the \<open>try\<close>, and the \<open>catch\<close> pushes the part a second time.
\<close>

definition classifyPart ::
  "hash_env \<Rightarrow> fetcher \<Rightarrow> part_hash list option \<Rightarrow> nat \<Rightarrow> part_record \<Rightarrow> part_class" where
  "classifyPart env getHiveContent partHashes i part =
     (if pr_status part \<noteq> Posted then Missing
      else
        (case getHiveContent (pr_author part) (pr_permlink part) of
           FetchThrows \<Rightarrow> FailedCheck
         | FetchNull \<Rightarrow> FailedCheck
         | FetchPost body \<Rightarrow>
             if body = [] then FailedCheck
             else
               (case partHashes of
                  None \<Rightarrow> Verified
                | Some hs \<Rightarrow>
                    if i < length hs then
                      (case hashString env body of
                         Inl e \<Rightarrow> FailedCheck
                       | Inr actualHash \<Rightarrow>
                           if h_sha256 actualHash \<noteq> ph_sha256 (hs ! i) then
                             (case ph_sha256 (hs ! i) of
                                Value expected \<Rightarrow> FailedCheck
                              | _ \<Rightarrow> FailedTwice)
                           else Verified)
                    else Verified)))"

fun verifyLoop ::
  "hash_env \<Rightarrow> fetcher \<Rightarrow> part_hash list option \<Rightarrow> nat \<Rightarrow> part_record list \<Rightarrow>
   verify_results \<Rightarrow> verify_results" where
  "verifyLoop env getHiveContent partHashes i [] results = results"
| "verifyLoop env getHiveContent partHashes i (part # rest) results =
     verifyLoop env getHiveContent partHashes (i + 1) rest
       (case classifyPart env getHiveContent partHashes i part of
          Missing \<Rightarrow> results\<lparr>vr_missing := vr_missing results @ [pr_part_number part]\<rparr>
        | FailedCheck \<Rightarrow>
            results\<lparr>vr_failed := vr_failed results @ [pr_part_number part],
                    vr_totalChecked := vr_totalChecked results + 1\<rparr>
        | FailedTwice \<Rightarrow>
            results\<lparr>vr_failed :=
                      vr_failed results @ [pr_part_number part, pr_part_number part],
                    vr_totalChecked := vr_totalChecked results + 1\<rparr>
        | Verified \<Rightarrow>
            results\<lparr>vr_verified := vr_verified results @ [pr_part_number part],
                    vr_totalChecked := vr_totalChecked results + 1\<rparr>)"

definition verifyCompletedParts ::
  "hash_env \<Rightarrow> fetcher \<Rightarrow> manifest \<Rightarrow> part_hash list option \<Rightarrow> verify_results" where
  "verifyCompletedParts env getHiveContent manifest partHashes =
     verifyLoop env getHiveContent partHashes 0 (m_parts manifest)
       \<lparr>vr_verified = [], vr_failed = [], vr_missing = [], vr_totalChecked = 0\<rparr>"


subsection \<open>Errors and text helpers\<close>

record js_error =
  err_name :: jsstring
  err_message :: jsstring

definition mkError :: "jsstring \<Rightarrow> js_error" where
  "mkError message = \<lparr>err_name = lit ''Error'', err_message = message\<rparr>"

definition errorToString :: "js_error \<Rightarrow> jsstring" where
  "errorToString e =
     (if err_name e = [] then err_message e
      else if err_message e = [] then err_name e
      else err_name e @ lit '': '' @ err_message e)"

function showNat :: "nat \<Rightarrow> jsstring" where
  "showNat n =
     (if n < 10 then [of_nat (48 + n)]
      else showNat (n div 10) @ [of_nat (48 + n mod 10)])"
  by pat_completeness auto
termination
  by (relation "measure id") auto

declare showNat.simps [simp del]

fun template :: "js_value \<Rightarrow> jsstring" where
  "template JUndefined = lit ''undefined''"
| "template JNull = lit ''null''"
| "template (JBoolean b) = (if b then lit ''true'' else lit ''false'')"
| "template (JNumber n) = (if n < 0 then lit ''-'' @ showNat (nat (- n)) else showNat (nat n))"
| "template (JString s) = s"

subsection \<open>Manifest operations\<close>

record post_info =
  pi_permlink :: "jsstring option"
  pi_author :: "jsstring option"

definition updateManifestWithPost ::
  "jsstring \<Rightarrow> manifest \<Rightarrow> nat \<Rightarrow> post_info \<Rightarrow> js_error + manifest" where
  "updateManifestWithPost now manifest partNumber postInfo =
     (if partNumber < 1 \<or> partNumber - 1 \<ge> m_total_parts manifest
      then Inl (mkError (lit ''Invalid part number: '' @ showNat partNumber))
      else Inr (manifest\<lparr>m_parts := (m_parts manifest)
                  [partNumber - 1 :=
                     \<lparr>pr_part_number = partNumber, pr_permlink = pi_permlink postInfo,
                      pr_author = pi_author postInfo, pr_status = Posted,
                      pr_posted_at = Some now\<rparr>]\<rparr>))"

record compact_manifest =
  cm_s :: jsstring
  cm_v :: jsstring
  cm_t :: nat
  cm_p :: nat
  cm_h :: full_hash
  cm_u :: jsstring

definition MANIFEST_SIZE_LIMIT :: nat where
  "MANIFEST_SIZE_LIMIT = 16 * 1024"

definition compactOf :: "manifest \<Rightarrow> nat \<Rightarrow> compact_manifest" where
  "compactOf manifest currentPartNumber =
     \<lparr>cm_s = m_series_id manifest, cm_v = m_version manifest, cm_t = m_total_parts manifest,
      cm_p = currentPartNumber, cm_h = m_content_hash_full manifest,
      cm_u = m_source_url manifest\<rparr>"

definition compactManifestForPost ::
  "(compact_manifest \<Rightarrow> jsstring) \<Rightarrow> manifest \<Rightarrow> nat \<Rightarrow> js_error + jsstring" where
  "compactManifestForPost stringify manifest currentPartNumber =
     (if length (stringify (compactOf manifest currentPartNumber)) > MANIFEST_SIZE_LIMIT
      then Inl (mkError (lit ''Manifest too large: ''
                  @ showNat (length (stringify (compactOf manifest currentPartNumber)))
                  @ lit '' bytes (limit: '' @ showNat MANIFEST_SIZE_LIMIT @ lit '')''))
      else Inr (stringify (compactOf manifest currentPartNumber)))"

datatype manifest_error =
    MissingRequiredField
  | InvalidSeriesId
  | InvalidTotalParts
  | EmptyContentHash
  | PartHashesCountMismatch
  | PartHashMissingFields nat
  | PartHashWrongNumber nat
  | PartMissingNumber nat
  | PartWrongNumber nat
  | PostedMissingPermlink nat
  | PostedMissingAuthor nat

definition isHexDigit :: "utf16 \<Rightarrow> bool" where
  "isHexDigit c =
     ((0x30 \<le> c \<and> c \<le> 0x39) \<or> (0x61 \<le> c \<and> c \<le> 0x66) \<or> (0x41 \<le> c \<and> c \<le> 0x46))"

text \<open>The test of \<open>/^[0-9a-f]{8}-[0-9a-f]{4}-4[0-9a-f]{3}-[89ab][0-9a-f]{3}-[0-9a-f]{12}$/i\<close>.\<close>

definition isUuidV4 :: "jsstring \<Rightarrow> bool" where
  "isUuidV4 s =
     (length s = 36 \<and>
      list_all isHexDigit (take 8 s) \<and> s ! 8 = 0x2D \<and>
      list_all isHexDigit (take 4 (drop 9 s)) \<and> s ! 13 = 0x2D \<and>
      s ! 14 = 0x34 \<and> list_all isHexDigit (take 3 (drop 15 s)) \<and> s ! 18 = 0x2D \<and>
      s ! 19 \<in> {0x38, 0x39, 0x61, 0x62, 0x41, 0x42} \<and>
      list_all isHexDigit (take 3 (drop 20 s)) \<and> s ! 23 = 0x2D \<and>
      list_all isHexDigit (take 12 (drop 24 s)))"

fun validateHashEntries :: "nat \<Rightarrow> part_hash list \<Rightarrow> manifest_error option" where
  "validateHashEntries index [] = None"
| "validateHashEntries index (hashEntry # rest) =
     (if ph_part_number hashEntry = 0 \<or> ph_sha256 hashEntry \<in> {Undefined, Null, Value []}
      then Some (PartHashMissingFields (index + 1))
      else if ph_part_number hashEntry \<noteq> index + 1 then Some (PartHashWrongNumber (index + 1))
      else validateHashEntries (index + 1) rest)"

fun validatePartEntries :: "nat \<Rightarrow> part_record list \<Rightarrow> manifest_error option" where
  "validatePartEntries index [] = None"
| "validatePartEntries index (part # rest) =
     (if pr_part_number part = 0 then Some (PartMissingNumber (index + 1))
      else if pr_part_number part \<noteq> index + 1 then Some (PartWrongNumber (index + 1))
      else if pr_status part = Posted \<and> \<not> truthy (pr_permlink part)
      then Some (PostedMissingPermlink (index + 1))
      else if pr_status part = Posted \<and> \<not> truthy (pr_author part)
      then Some (PostedMissingAuthor (index + 1))
      else validatePartEntries (index + 1) rest)"

definition validateManifest :: "manifest \<Rightarrow> manifest_error + bool" where
  "validateManifest manifest =
     (if m_series_id manifest = [] \<or> m_version manifest = [] \<or> m_total_parts manifest = 0 \<or>
         m_content_hash_full manifest = LegacyHash [] \<or> m_source_url manifest = []
      then Inl MissingRequiredField
      else if \<not> isUuidV4 (m_series_id manifest) then Inl InvalidSeriesId
      else if m_total_parts manifest < 1 \<or> m_total_parts manifest > 100 then Inl InvalidTotalParts
      else if (case m_content_hash_full manifest of
                 LegacyHash h \<Rightarrow> h = []
               | HashObject h \<Rightarrow> h_sha256 h \<in> {Undefined, Null, Value []})
      then Inl EmptyContentHash
      else if length (m_part_hashes manifest) \<noteq> m_total_parts manifest
      then Inl PartHashesCountMismatch
      else
        (case validateHashEntries 0 (m_part_hashes manifest) of
           Some e \<Rightarrow> Inl e
         | None \<Rightarrow>
             (case validatePartEntries 0 (m_parts manifest) of
                Some e \<Rightarrow> Inl e
              | None \<Rightarrow> Inr True)))"

section \<open>Posting pipeline\<close>

subsection \<open>Error classification\<close>

datatype error_type = TRANSIENT | PERMANENT | CANCELLED

definition classifyError :: "(jsstring \<Rightarrow> jsstring) \<Rightarrow> js_error \<Rightarrow> error_type" where
  "classifyError toLowerCase error =
     (let errorMessage = toLowerCase (err_message error);
          errorString = toLowerCase (errorToString error)
      in
        if jsIncludes errorMessage (lit ''auth'') \<or>
           jsIncludes errorMessage (lit ''permission'') \<or>
           jsIncludes errorMessage (lit ''unauthorized'') \<or>
           jsIncludes errorMessage (lit ''invalid key'') \<or>
           jsIncludes errorMessage (lit ''posting key'')
        then PERMANENT
        else if jsIncludes errorMessage (lit ''validation'') \<or>
                jsIncludes errorMessage (lit ''invalid'') \<or>
                jsIncludes errorMessage (lit ''missing required'') \<or>
                jsIncludes errorString (lit ''assert'')
        then PERMANENT
        else if jsIncludes errorMessage (lit ''cancel'') \<or>
                jsIncludes errorMessage (lit ''abort'')
        then CANCELLED
        else TRANSIENT)"

text \<open>\<open>toLowerCase\<close> on the letters A to Z; the environment of the examples uses it.\<close>

definition asciiLower :: "jsstring \<Rightarrow> jsstring" where
  "asciiLower s = map (\<lambda>c. if 0x41 \<le> c \<and> c \<le> 0x5A then c + 0x20 else c) s"

subsection \<open>State, environment and effects\<close>

text \<open>
  An element of \<open>contentParts\<close>: the constructor only checks that it is an array of the
  right length, so it may hold the part objects of the splitter or plain strings.
\<close>

datatype content_item = PartObject content_part | PartString jsstring

record json_metadata =
  jm_tags :: "jsstring list"
  jm_app :: jsstring
  jm_arcMultiPart :: manifest
  jm_current_part :: nat
  jm_part_number :: nat

record post_payload =
  pp_parent_author :: jsstring
  pp_author :: jsstring
  pp_title :: jsstring
  pp_body :: jsstring
  pp_json_metadata :: json_metadata
  pp_permlink :: jsstring
  pp_parent_permlink :: jsstring

text \<open>
  What the transport does with a payload: it throws, or resolves; \<open>Resolves None\<close> is a
  result without a permlink (\<open>null\<close>, or an object that lacks the field).
\<close>

datatype transport_outcome = Throws js_error | Resolves "jsstring option"

datatype phase =
  PhPreparing | PhPosting | PhRetrying | PhSuccess | PhFailed | PhCancelled | PhCooldown | PhPaused

datatype progress_status =
  StPending | StInProgress | StPosted | StFailed | StCancelled | StCooldown | StPaused

datatype pipeline_status = InProgress | Paused | Completed | FailedStatus | CancelledStatus

datatype sleep_site = Backoff | CooldownTick

text \<open>
  The effects of a run, in the order they happen: a progress notification (phase, part
  number, attempt, status), a call of the transport with its payload, a \<open>sleep\<close> with its
  call site and milliseconds, a write of the persisted state with the derived status and
  the part pointer it stores, and the deletion of the persisted state.
\<close>

datatype effect =
    Progress phase nat nat progress_status
  | Transport post_payload
  | Sleep sleep_site nat
  | SaveState pipeline_status nat
  | ClearState

record error_entry =
  ee_partNumber :: nat
  ee_attempt :: nat
  ee_error :: jsstring
  ee_timestamp :: jsstring

record pipeline =
  p_manifest :: manifest
  p_contentParts :: "content_item list"
  p_author :: jsstring
  p_currentPart :: nat
  p_attempts :: "nat \<rightharpoonup> nat"
  p_cancelled :: bool
  p_paused :: bool
  p_errors :: "error_entry list"
  p_rootPermlink :: "jsstring option"
  p_trace :: "effect list"

text \<open>
  The collaborators. The transport is any deterministic function of the payload and of
  the number of calls made before; \<open>env_now\<close> is the clock, read by the number of effects
  so far; \<open>JSON.stringify\<close> and \<open>toLowerCase\<close> are the built-ins.
\<close>

record pipeline_env =
  env_transport :: "nat \<Rightarrow> post_payload \<Rightarrow> transport_outcome"
  env_stringify :: "compact_manifest \<Rightarrow> jsstring"
  env_toLowerCase :: "jsstring \<Rightarrow> jsstring"
  env_now :: "nat \<Rightarrow> jsstring"

definition maxAttempts :: nat where
  "maxAttempts = 3"

definition backoffDelays :: "nat list" where
  "backoffDelays = [1000, 3000, 9000]"

definition emit :: "effect \<Rightarrow> pipeline \<Rightarrow> pipeline" where
  "emit e s = s\<lparr>p_trace := p_trace s @ [e]\<rparr>"

definition transportCalls :: "effect list \<Rightarrow> nat" where
  "transportCalls trace = length (filter (\<lambda>e. case e of Transport p \<Rightarrow> True | _ \<Rightarrow> False) trace)"

definition getStatus :: "pipeline \<Rightarrow> pipeline_status" where
  "getStatus s =
     (if p_cancelled s then CancelledStatus
      else if p_paused s then Paused
      else if p_currentPart s > m_total_parts (p_manifest s) then Completed
      else
        (case filter (\<lambda>p. pr_status p = Failed) (m_parts (p_manifest s)) of
           [] \<Rightarrow> InProgress
         | failedPart # others \<Rightarrow>
             if p_currentPart s > pr_part_number failedPart then FailedStatus else InProgress))"

definition saveState :: "pipeline \<Rightarrow> pipeline" where
  "saveState s = emit (SaveState (getStatus s) (p_currentPart s)) s"

definition markAsPaused :: "pipeline \<Rightarrow> pipeline" where
  "markAsPaused s = saveState (s\<lparr>p_paused := True\<rparr>)"

subsection \<open>The payload of a part\<close>

definition generatePostPayload ::
  "pipeline_env \<Rightarrow> pipeline \<Rightarrow> nat \<Rightarrow> js_value \<Rightarrow> js_error + post_payload" where
  "generatePostPayload env s partNumber content =
     (case compactManifestForPost (env_stringify env) (p_manifest s) partNumber of
        Inl e \<Rightarrow> Inl e
      | Inr compactManifest \<Rightarrow>
          if partNumber \<noteq> 1 \<and> \<not> truthy (p_rootPermlink s)
          then Inl (mkError (lit ''Part '' @ showNat partNumber
                 @ lit '' requires rootPermlink from Part 1, but it is not set. Cannot post as threaded reply.''))
          else
            Inr \<lparr>pp_parent_author = (if partNumber = 1 then [] else p_author s),
                 pp_author = p_author s,
                 pp_title =
                   (if m_title (p_manifest s) = [] then lit ''Untitled'' else m_title (p_manifest s))
                   @ lit '' [Part '' @ showNat partNumber @ lit ''/''
                   @ showNat (m_total_parts (p_manifest s)) @ lit '']'',
                 pp_body =
                   template content @ [LF, LF] @ MANIFEST_OPEN @ compactManifest @ MANIFEST_CLOSE,
                 pp_json_metadata =
                   \<lparr>jm_tags = m_tags (p_manifest s), jm_app = lit ''archive/1.0'',
                    jm_arcMultiPart = p_manifest s, jm_current_part = partNumber,
                    jm_part_number = partNumber\<rparr>,
                 pp_permlink =
                   take 8 (m_series_id (p_manifest s)) @ lit ''-part-'' @ showNat partNumber,
                 pp_parent_permlink =
                   (if partNumber = 1
                    then (case m_tags (p_manifest s) of
                            [] \<Rightarrow> lit ''archive''
                          | firstTag # others \<Rightarrow> if firstTag = [] then lit ''archive'' else firstTag)
                    else (case p_rootPermlink s of None \<Rightarrow> [] | Some root \<Rightarrow> root))\<rparr>)"

subsection \<open>Posting one part, with retries\<close>

datatype post_result = PostSucceeded post_info | PostFailed jsstring bool

text \<open>\<open>part.content\<close>: the field of a part object; a string has no such property.\<close>

fun contentOf :: "content_item \<Rightarrow> js_value" where
  "contentOf (PartObject part) = JString (cp_content part)"
| "contentOf (PartString text) = JUndefined"

text \<open>
  The status correction \<open>for (let i = 1; i <= partNumber; i++)\<close>: the first \<open>partNumber\<close>
  records get the status posted, and nothing else of them changes. It runs after
  \<open>updateManifestWithPost\<close> has accepted \<open>partNumber\<close>, so the list is long enough.
\<close>

fun markPosted :: "nat \<Rightarrow> part_record list \<Rightarrow> part_record list" where
  "markPosted 0 records = records"
| "markPosted (Suc k) [] = []"
| "markPosted (Suc k) (part # rest) =
     (if pr_status part \<noteq> Posted then part\<lparr>pr_status := Posted\<rparr> else part)
     # markPosted k rest"

text \<open>The state after the transport has returned \<open>permlink\<close> and the manifest took it as \<open>updated\<close>.\<close>

definition recordSuccess :: "nat \<Rightarrow> nat \<Rightarrow> jsstring \<Rightarrow> manifest \<Rightarrow> pipeline \<Rightarrow> pipeline" where
  "recordSuccess partNumber attempt permlink updated s =
     emit (Progress PhPosting partNumber attempt StPosted)
       (s\<lparr>p_manifest :=
            (if partNumber = 1 then updated\<lparr>m_root_permlink := Some permlink\<rparr> else updated)
            \<lparr>m_parts := markPosted partNumber (m_parts updated)\<rparr>,
          p_rootPermlink := (if partNumber = 1 then Some permlink else p_rootPermlink s),
          p_attempts :=
            (if p_attempts s partNumber \<in> {None, Some 0} then p_attempts s
             else (p_attempts s)(partNumber := None))\<rparr>)"

text \<open>The \<open>try\<close> block of one attempt: the error it throws, or the post information.\<close>

definition tryPost ::
  "pipeline_env \<Rightarrow> nat \<Rightarrow> js_value \<Rightarrow> nat \<Rightarrow> pipeline \<Rightarrow> (js_error + post_info) \<times> pipeline"
where
  "tryPost env partNumber content attempt s =
     (case generatePostPayload env s partNumber content of
        Inl e \<Rightarrow> (Inl e, s)
      | Inr postPayload \<Rightarrow>
          (case env_transport env (transportCalls (p_trace s)) postPayload of
             Throws e \<Rightarrow> (Inl e, emit (Transport postPayload) s)
           | Resolves None \<Rightarrow>
               (Inl (mkError (lit ''Transport function returned invalid result (missing permlink)'')),
                emit (Transport postPayload) s)
           | Resolves (Some permlink) \<Rightarrow>
               if permlink = []
               then (Inl (mkError (lit ''Transport function returned invalid result (missing permlink)'')),
                     emit (Transport postPayload) s)
               else
                 (case updateManifestWithPost (env_now env (length (p_trace s))) (p_manifest s)
                         partNumber \<lparr>pi_permlink = Some permlink, pi_author = Some (p_author s)\<rparr> of
                    Inl e \<Rightarrow> (Inl e, emit (Transport postPayload) s)
                  | Inr updated \<Rightarrow>
                      (Inr \<lparr>pi_permlink = Some permlink, pi_author = Some (p_author s)\<rparr>,
                       recordSuccess partNumber attempt permlink updated
                         (emit (Transport postPayload) s)))))"

definition backoffDelay :: "nat \<Rightarrow> nat" where
  "backoffDelay attempt =
     (if attempt - 1 < length backoffDelays \<and> backoffDelays ! (attempt - 1) \<noteq> 0
      then backoffDelays ! (attempt - 1)
      else last backoffDelays)"

definition beginAttempt :: "nat \<Rightarrow> nat \<Rightarrow> pipeline \<Rightarrow> pipeline" where
  "beginAttempt partNumber attempt s =
     emit (Progress (if attempt > 1 then PhRetrying else PhPosting) partNumber attempt StInProgress)
       (s\<lparr>p_attempts := (p_attempts s)(partNumber \<mapsto> attempt)\<rparr>)"

definition logError :: "pipeline_env \<Rightarrow> nat \<Rightarrow> nat \<Rightarrow> js_error \<Rightarrow> pipeline \<Rightarrow> pipeline" where
  "logError env partNumber attempt error s =
     s\<lparr>p_errors := p_errors s @
         [\<lparr>ee_partNumber = partNumber, ee_attempt = attempt, ee_error = err_message error,
           ee_timestamp = env_now env (length (p_trace s))\<rparr>]\<rparr>"

text \<open>The loop \<open>for (let attempt = 1; attempt <= this.maxAttempts; attempt++)\<close>.\<close>

function attemptLoop ::
  "pipeline_env \<Rightarrow> nat \<Rightarrow> js_value \<Rightarrow> nat \<Rightarrow> pipeline \<Rightarrow> post_result \<times> pipeline"
where
  "attemptLoop env partNumber content attempt s =
     (if attempt > maxAttempts then (PostFailed (lit ''Max retries exhausted'') False, s)
      else if p_cancelled s then (PostFailed (lit ''Cancelled by user'') False, s)
      else
        (case tryPost env partNumber content attempt (beginAttempt partNumber attempt s) of
           (Inr postInfo, s1) \<Rightarrow> (PostSucceeded postInfo, s1)
         | (Inl error, s1) \<Rightarrow>
             if classifyError (env_toLowerCase env) error = PERMANENT
             then (PostFailed (err_message error) False, logError env partNumber attempt error s1)
             else if classifyError (env_toLowerCase env) error = CANCELLED \<or> p_cancelled s1
             then (PostFailed (lit ''Cancelled by user'') False,
                   logError env partNumber attempt error s1)
             else if attempt < maxAttempts
             then attemptLoop env partNumber content (attempt + 1)
                    (emit (Sleep Backoff (backoffDelay attempt))
                       (logError env partNumber attempt error s1))
             else (PostFailed (err_message error) True,
                   emit (Progress PhPaused partNumber attempt StPaused)
                     (markAsPaused (logError env partNumber attempt error s1)))))"
  by pat_completeness auto
termination
  by (relation "measure (\<lambda>(env, partNumber, content, attempt, s). maxAttempts + 1 - attempt)")
     auto

declare attemptLoop.simps [simp del]

text \<open>
  \<open>_postPartWithRetry\<close>. Reading \<open>.content\<close> of a missing element of \<open>contentParts\<close> throws a
  TypeError before the loop and outside its \<open>try\<close>: the result is \<open>None\<close> then.
\<close>

definition postPartWithRetry ::
  "pipeline_env \<Rightarrow> nat \<Rightarrow> pipeline \<Rightarrow> (post_result \<times> pipeline) option" where
  "postPartWithRetry env partNumber s =
     (if partNumber < 1 \<or> partNumber - 1 \<ge> length (p_contentParts s) then None
      else Some (attemptLoop env partNumber (contentOf (p_contentParts s ! (partNumber - 1))) 1
              (if p_attempts s partNumber \<in> {None, Some 0}
               then s\<lparr>p_attempts := (p_attempts s)(partNumber \<mapsto> 0)\<rparr> else s)))"

subsection \<open>The run\<close>

text \<open>
  The cooldown before the next part: twenty rounds of a notification and a sleep of one
  second, left early when the cancelled flag is set.
\<close>

fun cooldownLoop :: "nat \<Rightarrow> pipeline \<Rightarrow> pipeline" where
  "cooldownLoop 0 s = s"
| "cooldownLoop (Suc remainingSeconds) s =
     (if p_cancelled
           (emit (Sleep CooldownTick 1000)
              (emit (Progress PhCooldown (p_currentPart s) 0 StCooldown) s))
      then emit (Sleep CooldownTick 1000)
             (emit (Progress PhCooldown (p_currentPart s) 0 StCooldown) s)
      else cooldownLoop remainingSeconds
             (emit (Sleep CooldownTick 1000)
                (emit (Progress PhCooldown (p_currentPart s) 0 StCooldown) s)))"

datatype start_result =
    StartSuccess
  | StartCancelled nat
  | StartPartFailed nat jsstring
  | StartThrew
  | StartSuspended

definition attemptsOr0 :: "pipeline \<Rightarrow> nat" where
  "attemptsOr0 s = (case p_attempts s (p_currentPart s) of None \<Rightarrow> 0 | Some a \<Rightarrow> a)"

text \<open>What no step of a run changes: the pointer inside one part, the lists' lengths, the author.\<close>

lemma emit_fields [simp]:
  "p_manifest (emit e s) = p_manifest s"
  "p_contentParts (emit e s) = p_contentParts s"
  "p_author (emit e s) = p_author s"
  "p_currentPart (emit e s) = p_currentPart s"
  "p_attempts (emit e s) = p_attempts s"
  "p_cancelled (emit e s) = p_cancelled s"
  "p_paused (emit e s) = p_paused s"
  "p_errors (emit e s) = p_errors s"
  "p_rootPermlink (emit e s) = p_rootPermlink s"
  "p_trace (emit e s) = p_trace s @ [e]"
  by (simp_all add: emit_def)

lemma saveState_fields [simp]:
  "p_manifest (saveState s) = p_manifest s"
  "p_contentParts (saveState s) = p_contentParts s"
  "p_author (saveState s) = p_author s"
  "p_currentPart (saveState s) = p_currentPart s"
  "p_attempts (saveState s) = p_attempts s"
  "p_cancelled (saveState s) = p_cancelled s"
  "p_paused (saveState s) = p_paused s"
  "p_errors (saveState s) = p_errors s"
  "p_rootPermlink (saveState s) = p_rootPermlink s"
  "p_trace (saveState s) = p_trace s @ [SaveState (getStatus s) (p_currentPart s)]"
  by (simp_all add: saveState_def)

lemma logError_fields [simp]:
  "p_manifest (logError env n a e s) = p_manifest s"
  "p_contentParts (logError env n a e s) = p_contentParts s"
  "p_author (logError env n a e s) = p_author s"
  "p_currentPart (logError env n a e s) = p_currentPart s"
  "p_attempts (logError env n a e s) = p_attempts s"
  "p_cancelled (logError env n a e s) = p_cancelled s"
  "p_paused (logError env n a e s) = p_paused s"
  "p_rootPermlink (logError env n a e s) = p_rootPermlink s"
  "p_trace (logError env n a e s) = p_trace s"
  by (simp_all add: logError_def)

lemma beginAttempt_fields [simp]:
  "p_manifest (beginAttempt n a s) = p_manifest s"
  "p_contentParts (beginAttempt n a s) = p_contentParts s"
  "p_author (beginAttempt n a s) = p_author s"
  "p_currentPart (beginAttempt n a s) = p_currentPart s"
  "p_attempts (beginAttempt n a s) = (p_attempts s)(n \<mapsto> a)"
  "p_cancelled (beginAttempt n a s) = p_cancelled s"
  "p_paused (beginAttempt n a s) = p_paused s"
  "p_errors (beginAttempt n a s) = p_errors s"
  "p_rootPermlink (beginAttempt n a s) = p_rootPermlink s"
  "p_trace (beginAttempt n a s) =
     p_trace s @ [Progress (if a > 1 then PhRetrying else PhPosting) n a StInProgress]"
  by (simp_all add: beginAttempt_def)

lemma markAsPaused_fields [simp]:
  "p_manifest (markAsPaused s) = p_manifest s"
  "p_contentParts (markAsPaused s) = p_contentParts s"
  "p_author (markAsPaused s) = p_author s"
  "p_currentPart (markAsPaused s) = p_currentPart s"
  "p_attempts (markAsPaused s) = p_attempts s"
  "p_cancelled (markAsPaused s) = p_cancelled s"
  "p_paused (markAsPaused s) = True"
  "p_errors (markAsPaused s) = p_errors s"
  "p_rootPermlink (markAsPaused s) = p_rootPermlink s"
  by (simp_all add: markAsPaused_def)

lemma markPosted_length [simp]: "length (markPosted k records) = length records"
  by (induction k records rule: markPosted.induct) simp_all

lemma recordSuccess_frame [simp]:
  "p_contentParts (recordSuccess n a permlink updated s) = p_contentParts s"
  "p_author (recordSuccess n a permlink updated s) = p_author s"
  "p_currentPart (recordSuccess n a permlink updated s) = p_currentPart s"
  "p_cancelled (recordSuccess n a permlink updated s) = p_cancelled s"
  "p_paused (recordSuccess n a permlink updated s) = p_paused s"
  "p_errors (recordSuccess n a permlink updated s) = p_errors s"
  "m_total_parts (p_manifest (recordSuccess n a permlink updated s)) = m_total_parts updated"
  by (simp_all add: recordSuccess_def m_total_parts_def)

lemma updateManifestWithPost_total:
  "updateManifestWithPost now manifest n info = Inr updated \<Longrightarrow>
     m_total_parts updated = m_total_parts manifest"
  by (auto simp: updateManifestWithPost_def m_total_parts_def split: if_splits)

lemma tryPost_frame:
  assumes "tryPost env n content a s = (r, s')"
  shows "p_currentPart s' = p_currentPart s \<and>
         m_total_parts (p_manifest s') = m_total_parts (p_manifest s) \<and>
         p_contentParts s' = p_contentParts s \<and> p_author s' = p_author s \<and>
         p_cancelled s' = p_cancelled s \<and> p_paused s' = p_paused s"
  using assms
  by (auto simp: tryPost_def updateManifestWithPost_total
      split: sum.splits transport_outcome.splits option.splits if_splits)

lemma attemptLoop_frame:
  "attemptLoop env n content a s = (r, s') \<Longrightarrow>
     p_currentPart s' = p_currentPart s \<and>
     m_total_parts (p_manifest s') = m_total_parts (p_manifest s) \<and>
     p_contentParts s' = p_contentParts s \<and> p_author s' = p_author s \<and>
     p_cancelled s' = p_cancelled s"
proof (induction env n content a s arbitrary: r s' rule: attemptLoop.induct)
  case (1 env partNumber content attempt s)
  show ?case
  proof (cases "attempt > maxAttempts \<or> p_cancelled s")
    case True
    with "1.prems" show ?thesis
      by (auto simp: attemptLoop.simps split: if_splits)
  next
    case False
    obtain res s1 where tp:
      "tryPost env partNumber content attempt (beginAttempt partNumber attempt s) = (res, s1)"
      by (cases "tryPost env partNumber content attempt (beginAttempt partNumber attempt s)")
    note fr = tryPost_frame [OF tp]
    show ?thesis
    proof (cases res)
      case (Inr postInfo)
      with "1.prems" False tp fr show ?thesis
        by (simp add: attemptLoop.simps)
    next
      case (Inl error)
      show ?thesis
      proof (cases "classifyError (env_toLowerCase env) error = PERMANENT \<or>
                    classifyError (env_toLowerCase env) error = CANCELLED \<or> p_cancelled s1 \<or>
                    \<not> attempt < maxAttempts")
        case True
        with "1.prems" False tp fr Inl show ?thesis
          by (auto simp: attemptLoop.simps split: if_splits)
      next
        case retry: False
        with "1.prems" False tp Inl have
          "attemptLoop env partNumber content (attempt + 1)
             (emit (Sleep Backoff (backoffDelay attempt))
                (logError env partNumber attempt error s1)) = (r, s')"
          by (simp add: attemptLoop.simps)
        from "1.IH" [OF _ _ tp [symmetric] _ _ _ _ this] False retry Inl fr show ?thesis
          by simp
      qed
    qed
  qed
qed

lemma cooldownLoop_frame [simp]:
  "p_currentPart (cooldownLoop k s) = p_currentPart s"
  "p_manifest (cooldownLoop k s) = p_manifest s"
  "p_contentParts (cooldownLoop k s) = p_contentParts s"
  "p_author (cooldownLoop k s) = p_author s"
  "p_cancelled (cooldownLoop k s) = p_cancelled s"
  "p_paused (cooldownLoop k s) = p_paused s"
  "p_attempts (cooldownLoop k s) = p_attempts s"
  "p_rootPermlink (cooldownLoop k s) = p_rootPermlink s"
  "p_errors (cooldownLoop k s) = p_errors s"
  by (induction k arbitrary: s; simp)+

lemma postPartWithRetry_frame:
  "postPartWithRetry env n s = Some (r, s') \<Longrightarrow>
     p_currentPart s' = p_currentPart s \<and>
     m_total_parts (p_manifest s') = m_total_parts (p_manifest s) \<and>
     p_contentParts s' = p_contentParts s \<and> p_author s' = p_author s \<and>
     p_cancelled s' = p_cancelled s"
  by (auto simp: postPartWithRetry_def split: if_splits dest!: attemptLoop_frame)

text \<open>
  The loop \<open>while (this.currentPart <= this.manifest.total_parts)\<close> of \<open>start\<close>, with its
  \<open>catch\<close>. The inner loop \<open>while (this.paused && !this.cancelled)\<close> polls until another
  caller resumes or cancels; a run is modelled without such a caller, so a run that
  enters it with the paused flag set stays there: \<open>StartSuspended\<close>.
\<close>

function startLoop :: "pipeline_env \<Rightarrow> pipeline \<Rightarrow> start_result \<times> pipeline" where
  "startLoop env s =
     (if p_currentPart s \<le> m_total_parts (p_manifest s) then
        if p_cancelled s
        then (StartCancelled (p_currentPart s - 1),
              saveState (emit (Progress PhCancelled (p_currentPart s) (attemptsOr0 s) StCancelled) s))
        else if p_paused s then (StartSuspended, s)
        else
          (case postPartWithRetry env (p_currentPart s) s of
             None \<Rightarrow>
               (StartThrew, saveState (emit (Progress PhFailed (p_currentPart s) 0 StFailed) s))
           | Some (PostFailed error paused, s1) \<Rightarrow>
               (StartPartFailed (p_currentPart s1) error,
                saveState (emit (Progress PhFailed (p_currentPart s1) (attemptsOr0 s1) StFailed) s1))
           | Some (PostSucceeded postInfo, s1) \<Rightarrow>
               if p_cancelled
                    (if p_currentPart s1 = m_total_parts (p_manifest s1) then s1
                     else cooldownLoop 20 s1)
               then (StartCancelled (p_currentPart s1),
                     saveState
                       (emit (Progress PhCancelled (p_currentPart s1) (attemptsOr0 s1) StCancelled)
                          (if p_currentPart s1 = m_total_parts (p_manifest s1) then s1
                           else cooldownLoop 20 s1)))
               else startLoop env
                      (saveState
                         ((if p_currentPart s1 = m_total_parts (p_manifest s1) then s1
                           else cooldownLoop 20 s1)
                          \<lparr>p_currentPart := p_currentPart s1 + 1\<rparr>)))
      else (StartSuccess,
            emit ClearState
              (emit (Progress PhSuccess (m_total_parts (p_manifest s)) 0 StPosted) s)))"
  by pat_completeness auto
termination
proof (relation "measure (\<lambda>(env, s). m_total_parts (p_manifest s) + 1 - p_currentPart s)")
  show "wf (measure (\<lambda>(env, s). m_total_parts (p_manifest s) + 1 - p_currentPart s))"
    by simp
next
  fix env :: pipeline_env and s :: pipeline and x2 :: "post_result \<times> pipeline"
    and x1 :: post_result and s1 :: pipeline and postInfo :: post_info
  assume le: "p_currentPart s \<le> m_total_parts (p_manifest s)"
    and run: "postPartWithRetry env (p_currentPart s) s = Some x2"
    and x2: "(x1, s1) = x2" and x1: "x1 = PostSucceeded postInfo"
  from run x2 have "postPartWithRetry env (p_currentPart s) s = Some (x1, s1)" by simp
  from postPartWithRetry_frame [OF this] le
  show "((env,
          saveState
            ((if p_currentPart s1 = m_total_parts (p_manifest s1) then s1
              else cooldownLoop 20 s1)
             \<lparr>p_currentPart := p_currentPart s1 + 1\<rparr>)), env, s)
        \<in> measure (\<lambda>(env, s). m_total_parts (p_manifest s) + 1 - p_currentPart s)"
    by auto
qed

declare startLoop.simps [simp del]

definition start :: "pipeline_env \<Rightarrow> pipeline \<Rightarrow> start_result \<times> pipeline" where
  "start env s =
     startLoop env
       (emit (Progress PhPreparing (p_currentPart s) 0 StPending)
          (s\<lparr>p_cancelled := False, p_paused := False\<rparr>))"

subsection \<open>Construction and restoration\<close>

datatype construct_error = ContentPartsCountMismatch | AuthorRequired | InvalidManifest manifest_error

definition newPipeline ::
  "manifest \<Rightarrow> content_item list \<Rightarrow> jsstring \<Rightarrow> construct_error + pipeline" where
  "newPipeline manifest contentParts author =
     (if length contentParts \<noteq> m_total_parts manifest then Inl ContentPartsCountMismatch
      else if author = [] then Inl AuthorRequired
      else
        (case validateManifest manifest of
           Inl e \<Rightarrow> Inl (InvalidManifest e)
         | Inr ok \<Rightarrow>
             Inr \<lparr>p_manifest = manifest, p_contentParts = contentParts, p_author = author,
                  p_currentPart = 1, p_attempts = Map.empty, p_cancelled = False,
                  p_paused = False, p_errors = [], p_rootPermlink = None, p_trace = []\<rparr>))"

record saved_state =
  ss_manifest :: "manifest option"
  ss_currentPart :: nat
  ss_attempts :: "(nat \<rightharpoonup> nat) option"
  ss_cancelled :: bool
  ss_paused :: bool
  ss_errors :: "error_entry list"
  ss_rootPermlink :: "jsstring option"

definition restoreState :: "saved_state \<Rightarrow> pipeline \<Rightarrow> pipeline" where
  "restoreState state s =
     s\<lparr>p_currentPart := (if ss_currentPart state = 0 then 1 else ss_currentPart state),
       p_attempts := (case ss_attempts state of None \<Rightarrow> Map.empty | Some a \<Rightarrow> a),
       p_cancelled := ss_cancelled state,
       p_paused := ss_paused state,
       p_errors := ss_errors state,
       p_rootPermlink := (if truthy (ss_rootPermlink state) then ss_rootPermlink state else None),
       p_manifest := (case ss_manifest state of None \<Rightarrow> p_manifest s | Some m \<Rightarrow> m)\<rparr>"

subsection \<open>A sample series\<close>

definition samplePart :: "nat \<Rightarrow> part_record" where
  "samplePart n =
     \<lparr>pr_part_number = n, pr_permlink = None, pr_author = None, pr_status = Pending,
      pr_posted_at = None\<rparr>"

definition sampleHash :: "nat \<Rightarrow> part_hash" where
  "sampleHash n =
     \<lparr>ph_part_number = n, ph_sha256 = Value (lit ''5e'' @ showNat n), ph_blake2b = Null,
      ph_md5 = Value (lit ''d4'' @ showNat n)\<rparr>"

definition sampleManifest :: "nat \<Rightarrow> manifest" where
  "sampleManifest k =
     \<lparr>m_series_id = lit ''a7b3c4d5-1234-4abc-8def-123456789abc'', m_version = lit ''1.0'',
      m_source_url = lit ''https://example.org/a'', m_title = lit ''Doc'',
      m_root_permlink = None,
      m_content_hash_full =
        HashObject \<lparr>h_sha256 = Value (lit ''5e''), h_blake2b = Null, h_md5 = Value (lit ''d4'')\<rparr>,
      m_part_hashes = map sampleHash [1 ..< Suc k], m_tags = [lit ''archive''],
      m_parts = map samplePart [1 ..< Suc k]\<rparr>"

definition sampleObject :: "jsstring \<Rightarrow> content_item" where
  "sampleObject text = PartObject (mkPart 1 text (LBoundary BParagraph))"

definition sampleEnv :: "(nat \<Rightarrow> post_payload \<Rightarrow> transport_outcome) \<Rightarrow> pipeline_env" where
  "sampleEnv transport =
     \<lparr>env_transport = transport, env_stringify = (\<lambda>c. lit ''{}''),
      env_toLowerCase = asciiLower, env_now = (\<lambda>t. lit ''now'')\<rparr>"

definition timeoutError :: js_error where
  "timeoutError = mkError (lit ''Request timeout'')"

definition authError :: js_error where
  "authError = mkError (lit ''Missing posting authority'')"

section \<open>Runs of the pipeline\<close>

text \<open>
  A run is read off the trace it leaves: the payloads handed to the transport, in order,
  and the backoff sleeps of the retry loop. The part a payload belongs to is the
  \<open>current_part\<close> of its \<open>json_metadata\<close>.
\<close>

fun payloadsOf :: "effect list \<Rightarrow> post_payload list" where
  "payloadsOf [] = []"
| "payloadsOf (Transport p # rest) = p # payloadsOf rest"
| "payloadsOf (e # rest) = payloadsOf rest"

fun backoffsOf :: "effect list \<Rightarrow> nat list" where
  "backoffsOf [] = []"
| "backoffsOf (Sleep Backoff ms # rest) = ms # backoffsOf rest"
| "backoffsOf (e # rest) = backoffsOf rest"

definition partOf :: "post_payload \<Rightarrow> nat" where
  "partOf payload = jm_current_part (pp_json_metadata payload)"

text \<open>
  The invariant of a part record: a posted part has both locators.
\<close>

definition partInvariant :: "manifest \<Rightarrow> bool" where
  "partInvariant manifest =
     list_all (\<lambda>part. if pr_status part = Posted
                      then pr_permlink part \<noteq> None \<and> pr_author part \<noteq> None else True)
       (m_parts manifest)"

definition postedWithLocators :: "part_record \<Rightarrow> bool" where
  "postedWithLocators part =
     (pr_status part = Posted \<and> pr_permlink part \<noteq> None \<and> pr_author part \<noteq> None)"

text \<open>
  Transports. \<open>succeedingTransport\<close> accepts every operation and answers with the
  permlink it was given; \<open>scenarioTransport n e\<close> accepts the parts before \<open>n\<close> and
  throws \<open>e\<close> from part \<open>n\<close> on. The three predicates after them say of any transport
  that the compact manifest of every part fits its limit, that every part before \<open>n\<close> is
  accepted with a non-empty permlink, and that part \<open>n\<close> is refused with an error of the
  given class (at one call, or at every call).
\<close>

definition succeedingTransport :: "nat \<Rightarrow> post_payload \<Rightarrow> transport_outcome" where
  "succeedingTransport calls payload = Resolves (Some (pp_permlink payload))"

definition scenarioTransport ::
  "nat \<Rightarrow> js_error \<Rightarrow> nat \<Rightarrow> post_payload \<Rightarrow> transport_outcome" where
  "scenarioTransport n e calls payload =
     (if partOf payload < n then Resolves (Some (lit ''post-'' @ showNat (partOf payload)))
      else Throws e)"

definition compactFits :: "pipeline_env \<Rightarrow> manifest \<Rightarrow> bool" where
  "compactFits env manifest =
     (\<forall>k \<in> {1 .. m_total_parts manifest}.
        length (env_stringify env (compactOf manifest k)) \<le> MANIFEST_SIZE_LIMIT)"

definition succeedsBefore :: "pipeline_env \<Rightarrow> nat \<Rightarrow> bool" where
  "succeedsBefore env n =
     (\<forall>calls payload. partOf payload < n \<longrightarrow>
        (\<exists>permlink. env_transport env calls payload = Resolves (Some permlink) \<and> permlink \<noteq> []))"

definition failsAtCall :: "pipeline_env \<Rightarrow> nat \<Rightarrow> nat \<Rightarrow> error_type \<Rightarrow> bool" where
  "failsAtCall env n calls kind =
     (\<forall>payload. partOf payload = n \<longrightarrow>
        (\<exists>e. env_transport env calls payload = Throws e \<and>
             classifyError (env_toLowerCase env) e = kind))"

definition failsAt :: "pipeline_env \<Rightarrow> nat \<Rightarrow> error_type \<Rightarrow> bool" where
  "failsAt env n kind = (\<forall>calls. failsAtCall env n calls kind)"

text \<open>
  The states from which \<open>start\<close> posts part \<open>currentPart\<close> of a series whose earlier
  parts it has posted itself: not cancelled, not paused, the root locator known from
  part 2 on, no backoff so far, one payload sent for each earlier part, and the parts of
  the manifest numbered from 1 as \<open>validateManifest\<close> requires.
\<close>

definition ready :: "manifest \<Rightarrow> pipeline \<Rightarrow> bool" where
  "ready m0 s =
     (\<not> p_cancelled s \<and> \<not> p_paused s \<and> p_author s \<noteq> [] \<and>
      length (p_contentParts s) = m_total_parts m0 \<and>
      m_total_parts (p_manifest s) = m_total_parts m0 \<and>
      (\<forall>k. compactOf (p_manifest s) k = compactOf m0 k) \<and>
      (p_currentPart s \<noteq> 1 \<longrightarrow> truthy (p_rootPermlink s)) \<and>
      1 \<le> p_currentPart s \<and>
      backoffsOf (p_trace s) = [] \<and>
      (\<forall>i < p_currentPart s - 1. postedWithLocators (m_parts (p_manifest s) ! i)) \<and>
      (\<forall>p \<in> set (payloadsOf (p_trace s)). partOf p < p_currentPart s) \<and>
      length (payloadsOf (p_trace s)) = p_currentPart s - 1 \<and>
      (\<forall>i < length (m_parts (p_manifest s)).
         pr_part_number (m_parts (p_manifest s) ! i) = i + 1))"

text \<open>
  The state after a failed attempt: the attempt counter set, the notification fired, the
  payload handed to the transport, the error logged. And the state in which
  \<open>_postPartWithRetry\<close> enters its loop.
\<close>

definition afterThrow :: "pipeline_env \<Rightarrow> nat \<Rightarrow> nat \<Rightarrow> js_error \<Rightarrow> post_payload \<Rightarrow> pipeline \<Rightarrow> pipeline" where
  "afterThrow env n a e payload s =
     logError env n a e (emit (Transport payload) (beginAttempt n a s))"

definition enterPart :: "nat \<Rightarrow> pipeline \<Rightarrow> pipeline" where
  "enterPart n s =
     (if p_attempts s n \<in> {None, Some 0} then s\<lparr>p_attempts := (p_attempts s)(n \<mapsto> 0)\<rparr> else s)"

text \<open>
  A manifest whose only part has been posted, and digest functions that can be
  evaluated (the identity for SHA-256, the reversal for MD5, BLAKE2b not loaded).
\<close>

definition postedManifest :: manifest where
  "postedManifest =
     (sampleManifest 1)
       \<lparr>m_parts := [\<lparr>pr_part_number = 1, pr_permlink = Some (lit ''a7b3c4d5-part-1''),
                     pr_author = Some (lit ''alice''), pr_status = Posted,
                     pr_posted_at = Some (lit ''now'')\<rparr>]\<rparr>"

definition plainDigests :: hash_env where
  "plainDigests = \<lparr>env_sha256 = (\<lambda>s. s), env_blake2b = None, env_md5 = Some rev\<rparr>"

subsection \<open>The trace\<close>

lemma payloadsOf_append [simp]: "payloadsOf (xs @ ys) = payloadsOf xs @ payloadsOf ys"
  by (induction xs rule: payloadsOf.induct) simp_all

lemma backoffsOf_append [simp]: "backoffsOf (xs @ ys) = backoffsOf xs @ backoffsOf ys"
  by (induction xs rule: backoffsOf.induct) simp_all

lemma transportCalls_payloads: "transportCalls trace = length (payloadsOf trace)"
  unfolding transportCalls_def by (induction trace rule: payloadsOf.induct) simp_all

lemma cooldownLoop_trace:
  "\<not> p_cancelled s \<Longrightarrow>
   backoffsOf (p_trace (cooldownLoop k s)) = backoffsOf (p_trace s) \<and>
   payloadsOf (p_trace (cooldownLoop k s)) = payloadsOf (p_trace s)"
  by (induction k arbitrary: s) simp_all

lemma markAsPaused_trace [simp]:
  "p_trace (markAsPaused s) =
     p_trace s @ [SaveState (if p_cancelled s then CancelledStatus else Paused) (p_currentPart s)]"
  by (simp add: markAsPaused_def saveState_def getStatus_def emit_def)

subsection \<open>The publish payload\<close>

text \<open>
  For a part given as an object, \<open>_generatePostPayload\<close> builds the title from the manifest
  title (or \<open>Untitled\<close>) and the part index, the body from the part's content and the
  embedded compact manifest, an empty parent author for part 1, and the author and root
  locator as the parent of every later part; without a root locator a later part is an
  error.
\<close>

lemma generatePostPayload_state:
  "p_manifest s = p_manifest t \<Longrightarrow> p_rootPermlink s = p_rootPermlink t \<Longrightarrow>
   p_author s = p_author t \<Longrightarrow>
   generatePostPayload env s k content = generatePostPayload env t k content"
  unfolding generatePostPayload_def by (simp split: sum.splits)

lemma generatePostPayload_ok:
  assumes "length (env_stringify env (compactOf (p_manifest s) k)) \<le> MANIFEST_SIZE_LIMIT"
    and "k = 1 \<or> truthy (p_rootPermlink s)"
  shows "\<exists>payload. generatePostPayload env s k content = Inr payload \<and> partOf payload = k"
  using assms
  by (auto simp: generatePostPayload_def compactManifestForPost_def partOf_def)

lemma generatePostPayload_part_object:
  assumes "generatePostPayload env s n (contentOf (PartObject part)) = Inr payload"
  shows "pp_title payload =
           (if m_title (p_manifest s) = [] then lit ''Untitled'' else m_title (p_manifest s))
           @ lit '' [Part '' @ showNat n @ lit ''/'' @ showNat (m_total_parts (p_manifest s))
           @ lit '']''"
    and "pp_body payload =
           cp_content part @ [LF, LF] @ MANIFEST_OPEN
           @ env_stringify env (compactOf (p_manifest s) n) @ MANIFEST_CLOSE"
    and "n = 1 \<Longrightarrow> pp_parent_author payload = []"
    and "n \<noteq> 1 \<Longrightarrow> pp_parent_author payload = p_author s \<and>
                   p_rootPermlink s = Some (pp_parent_permlink payload) \<and>
                   pp_parent_permlink payload \<noteq> []"
  using assms
  by (auto simp: generatePostPayload_def compactManifestForPost_def truthy_def
      split: if_splits option.splits)

lemma generatePostPayload_needs_root:
  assumes "n \<noteq> 1" and "\<not> truthy (p_rootPermlink s)"
  shows "\<exists>e. generatePostPayload env s n content = Inl e"
  using assms
  by (auto simp: generatePostPayload_def compactManifestForPost_def)

lemma ready_payload:
  assumes rdy: "ready m0 s" and n: "p_currentPart s = n" "n \<le> m_total_parts m0"
    and fits: "compactFits env m0"
    and same: "p_manifest t = p_manifest s" "p_rootPermlink t = p_rootPermlink s"
      "p_author t = p_author s"
  shows "\<exists>payload. generatePostPayload env t n content = Inr payload \<and> partOf payload = n"
proof -
  from rdy n have n1: "1 \<le> n" and cmp: "compactOf (p_manifest s) n = compactOf m0 n"
    and root: "n \<noteq> 1 \<Longrightarrow> truthy (p_rootPermlink s)"
    by (auto simp: ready_def)
  from fits n1 n(2) have "length (env_stringify env (compactOf m0 n)) \<le> MANIFEST_SIZE_LIMIT"
    by (simp add: compactFits_def)
  then have "length (env_stringify env (compactOf (p_manifest t) n)) \<le> MANIFEST_SIZE_LIMIT"
    by (simp only: same cmp)
  moreover from root have "n = 1 \<or> truthy (p_rootPermlink t)" by (auto simp only: same)
  ultimately show ?thesis by (rule generatePostPayload_ok)
qed

subsection \<open>Manifest updates\<close>

lemma markPosted_numeral [simp]:
  "markPosted (numeral k) (part # rest) =
     (if pr_status part \<noteq> Posted then part\<lparr>pr_status := Posted\<rparr> else part)
     # markPosted (pred_numeral k) rest"
  by (simp add: numeral_eq_Suc)

lemma markPosted_nth:
  "i < length records \<Longrightarrow>
   markPosted k records ! i =
     (if i < k \<and> pr_status (records ! i) \<noteq> Posted then (records ! i)\<lparr>pr_status := Posted\<rparr>
      else records ! i)"
proof (induction k records arbitrary: i rule: markPosted.induct)
  case (1 records)
  then show ?case by simp
next
  case (2 k)
  then show ?case by simp
next
  case (3 k part rest)
  then show ?case by (cases i) auto
qed

lemma recordSuccess_more [simp]:
  "p_trace (recordSuccess n a permlink updated s) = p_trace s @ [Progress PhPosting n a StPosted]"
  "p_rootPermlink (recordSuccess n a permlink updated s) =
     (if n = 1 then Some permlink else p_rootPermlink s)"
  "m_parts (p_manifest (recordSuccess n a permlink updated s)) = markPosted n (m_parts updated)"
  "compactOf (p_manifest (recordSuccess n a permlink updated s)) k = compactOf updated k"
  by (simp_all add: recordSuccess_def compactOf_def m_total_parts_def)

lemma updateManifestWithPost_ok:
  assumes "1 \<le> k" and "k \<le> m_total_parts manifest"
  shows "updateManifestWithPost now manifest k info =
     Inr (manifest\<lparr>m_parts := (m_parts manifest)
            [k - 1 := \<lparr>pr_part_number = k, pr_permlink = pi_permlink info,
                       pr_author = pi_author info, pr_status = Posted,
                       pr_posted_at = Some now\<rparr>]\<rparr>)"
proof -
  from assms have "\<not> (k < 1 \<or> k - 1 \<ge> m_total_parts manifest)" by arith
  then show ?thesis by (simp add: updateManifestWithPost_def)
qed

lemma compactOf_parts [simp]:
  "length ps = length (m_parts m) \<Longrightarrow> compactOf (m\<lparr>m_parts := ps\<rparr>) k = compactOf m k"
  by (simp add: compactOf_def m_total_parts_def)

lemma updateManifestWithPost_keeps_invariant:
  assumes "partInvariant manifest"
    and "pi_permlink info \<noteq> None" and "pi_author info \<noteq> None"
    and "updateManifestWithPost now manifest n info = Inr updated"
  shows "partInvariant updated"
proof -
  from assms(4) have u: "updated = manifest\<lparr>m_parts := (m_parts manifest)
      [n - 1 := \<lparr>pr_part_number = n, pr_permlink = pi_permlink info,
                 pr_author = pi_author info, pr_status = Posted,
                 pr_posted_at = Some now\<rparr>]\<rparr>"
    by (auto simp: updateManifestWithPost_def split: if_splits)
  have "if pr_status (m_parts updated ! i) = Posted
        then pr_permlink (m_parts updated ! i) \<noteq> None \<and> pr_author (m_parts updated ! i) \<noteq> None
        else True" if i: "i < length (m_parts updated)" for i
  proof (cases "i = n - 1")
    case True
    with i assms(2,3) show ?thesis by (simp add: u)
  next
    case False
    from i have "i < length (m_parts manifest)" by (simp add: u)
    with assms(1) have "if pr_status (m_parts manifest ! i) = Posted
        then pr_permlink (m_parts manifest ! i) \<noteq> None \<and> pr_author (m_parts manifest ! i) \<noteq> None
        else True"
      by (simp add: partInvariant_def list_all_length)
    with False show ?thesis by (simp add: u)
  qed
  then show ?thesis by (simp add: partInvariant_def list_all_length)
qed

subsection \<open>A part that is accepted\<close>

lemma attemptLoop_first_success:
  assumes gen: "generatePostPayload env s k content = Inr payload"
    and tr: "env_transport env (transportCalls (p_trace s)) payload = Resolves (Some permlink)"
    and ne: "permlink \<noteq> []"
    and range: "1 \<le> k" "k \<le> m_total_parts (p_manifest s)"
    and nc: "\<not> p_cancelled s"
  shows "\<exists>info updated.
      updateManifestWithPost (env_now env (Suc (length (p_trace s)))) (p_manifest s) k
        \<lparr>pi_permlink = Some permlink, pi_author = Some (p_author s)\<rparr> = Inr updated \<and>
      attemptLoop env k content 1 s =
        (PostSucceeded info,
         recordSuccess k 1 permlink updated (emit (Transport payload) (beginAttempt k 1 s)))"
proof -
  let ?b = "beginAttempt k 1 s"
  have gen': "generatePostPayload env ?b k content = Inr payload"
    using gen generatePostPayload_state [of ?b s env k content] by simp
  have tr': "env_transport env (transportCalls (p_trace ?b)) payload = Resolves (Some permlink)"
    using tr by (simp add: transportCalls_payloads)
  obtain updated where upd:
    "updateManifestWithPost (env_now env (Suc (length (p_trace s)))) (p_manifest s) k
        \<lparr>pi_permlink = Some permlink, pi_author = Some (p_author s)\<rparr> = Inr updated"
    using updateManifestWithPost_ok [OF range] by blast
  have "tryPost env k content 1 ?b =
      (Inr \<lparr>pi_permlink = Some permlink, pi_author = Some (p_author s)\<rparr>,
       recordSuccess k 1 permlink updated (emit (Transport payload) ?b))"
    using gen' tr' ne upd by (simp add: tryPost_def)
  with nc upd show ?thesis
    by (subst attemptLoop.simps) (simp add: maxAttempts_def)
qed

lemma posted_after_success:
  assumes old: "\<forall>i < k - 1. postedWithLocators (ps ! i)" and k: "1 \<le> k" "k \<le> length ps"
  shows "\<forall>i < k. postedWithLocators
           (markPosted k (ps[k - 1 := \<lparr>pr_part_number = k, pr_permlink = Some permlink,
                                       pr_author = Some a, pr_status = Posted,
                                       pr_posted_at = t\<rparr>]) ! i)"
proof (intro allI impI)
  fix i assume i: "i < k"
  with k have len: "i < length ps" by simp
  show "postedWithLocators
           (markPosted k (ps[k - 1 := \<lparr>pr_part_number = k, pr_permlink = Some permlink,
                                       pr_author = Some a, pr_status = Posted,
                                       pr_posted_at = t\<rparr>]) ! i)"
  proof (cases "i = k - 1")
    case True
    with len i show ?thesis
      by (simp add: markPosted_nth postedWithLocators_def)
  next
    case False
    with i have "i < k - 1" by simp
    with old have "postedWithLocators (ps ! i)" by simp
    with False len i show ?thesis
      by (simp add: markPosted_nth postedWithLocators_def)
  qed
qed

lemma startLoop_success_step:
  assumes rdy: "ready m0 s" and k: "p_currentPart s = k" and lt: "k < n"
    and n: "n \<le> m_total_parts m0"
    and fits: "compactFits env m0" and ok: "succeedsBefore env n"
  shows "\<exists>s'. startLoop env s = startLoop env s' \<and> ready m0 s' \<and> p_currentPart s' = k + 1"
proof -
  from rdy k have k1: "1 \<le> k" and nc: "\<not> p_cancelled s" and np: "\<not> p_paused s"
    and tot: "m_total_parts (p_manifest s) = m_total_parts m0"
    and len: "length (p_contentParts s) = m_total_parts m0"
    and cmp: "\<And>j. compactOf (p_manifest s) j = compactOf m0 j"
    and root: "k \<noteq> 1 \<Longrightarrow> truthy (p_rootPermlink s)"
    and auth: "p_author s \<noteq> []"
    and nob: "backoffsOf (p_trace s) = []"
    and old: "\<forall>i < k - 1. postedWithLocators (m_parts (p_manifest s) ! i)"
    and sent: "\<forall>p \<in> set (payloadsOf (p_trace s)). partOf p < k"
    and cnt: "length (payloadsOf (p_trace s)) = k - 1"
    and num: "\<forall>i < length (m_parts (p_manifest s)).
                pr_part_number (m_parts (p_manifest s) ! i) = i + 1"
    by (auto simp: ready_def)
  from lt n have kt: "k \<le> m_total_parts m0" and kne: "k \<noteq> m_total_parts m0" by simp_all
  let ?content = "contentOf (p_contentParts s ! (k - 1))"
  let ?i = "if p_attempts s k \<in> {None, Some 0}
            then s\<lparr>p_attempts := (p_attempts s)(k \<mapsto> 0)\<rparr> else s"
  have i_fields: "p_manifest ?i = p_manifest s" "p_rootPermlink ?i = p_rootPermlink s"
    "p_author ?i = p_author s" "p_trace ?i = p_trace s" "p_cancelled ?i = p_cancelled s"
    "p_currentPart ?i = p_currentPart s" "p_contentParts ?i = p_contentParts s"
    "p_paused ?i = p_paused s"
    by simp_all
  from fits k1 kt have "length (env_stringify env (compactOf m0 k)) \<le> MANIFEST_SIZE_LIMIT"
    by (simp add: compactFits_def)
  then have fit: "length (env_stringify env (compactOf (p_manifest ?i) k)) \<le> MANIFEST_SIZE_LIMIT"
    by (simp only: i_fields cmp)
  from root have "k = 1 \<or> truthy (p_rootPermlink ?i)" by (auto simp only: i_fields)
  from generatePostPayload_ok [OF fit this] obtain payload where
    gen: "generatePostPayload env ?i k ?content = Inr payload" and pk: "partOf payload = k"
    by blast
  from ok pk lt obtain permlink where
    tr: "env_transport env (transportCalls (p_trace ?i)) payload = Resolves (Some permlink)"
    and ne: "permlink \<noteq> []"
    unfolding succeedsBefore_def by (metis (no_types))
  have range: "1 \<le> k" "k \<le> m_total_parts (p_manifest ?i)"
    using k1 kt tot by (simp_all only: i_fields)
  have nci: "\<not> p_cancelled ?i" using nc by simp
  from attemptLoop_first_success [OF gen tr ne range nci] obtain info updated where
    upd: "updateManifestWithPost (env_now env (Suc (length (p_trace ?i)))) (p_manifest ?i) k
            \<lparr>pi_permlink = Some permlink, pi_author = Some (p_author ?i)\<rparr> = Inr updated"
    and al: "attemptLoop env k ?content 1 ?i =
        (PostSucceeded info,
         recordSuccess k 1 permlink updated (emit (Transport payload) (beginAttempt k 1 ?i)))"
    by blast
  let ?s1 = "recordSuccess k 1 permlink updated (emit (Transport payload) (beginAttempt k 1 ?i))"
  let ?s' = "saveState ((cooldownLoop 20 ?s1)\<lparr>p_currentPart := p_currentPart ?s1 + 1\<rparr>)"
  from updateManifestWithPost_ok [OF range] upd have updated:
    "updated = (p_manifest s)\<lparr>m_parts := (m_parts (p_manifest s))
        [k - 1 := \<lparr>pr_part_number = k, pr_permlink = Some permlink,
                   pr_author = Some (p_author s), pr_status = Posted,
                   pr_posted_at = Some (env_now env (Suc (length (p_trace s))))\<rparr>]\<rparr>"
    by (simp only: i_fields) simp
  have s1_fields:
    "p_currentPart ?s1 = k" "\<not> p_cancelled ?s1" "\<not> p_paused ?s1"
    "p_contentParts ?s1 = p_contentParts s" "p_author ?s1 = p_author s"
    "m_total_parts (p_manifest ?s1) = m_total_parts m0"
    using k nc np tot by (simp_all add: updated m_total_parts_def)
  have ppr: "postPartWithRetry env k s = Some (PostSucceeded info, ?s1)"
    using k1 kt len al by (simp add: postPartWithRetry_def)
  have step: "startLoop env s = startLoop env ?s'"
    using k kt tot nc np ppr s1_fields kne
    by (subst startLoop.simps) simp
  have cmp': "\<And>j. compactOf (p_manifest ?s1) j = compactOf m0 j"
    using cmp by (simp add: updated)
  have root': "truthy (p_rootPermlink ?s1)"
    using root ne by (cases "k = 1") (simp_all add: truthy_def)
  have tr1: "backoffsOf (p_trace ?s1) = []" "payloadsOf (p_trace ?s1) = payloadsOf (p_trace s) @ [payload]"
    using nob by simp_all
  have parts': "\<forall>i < k. postedWithLocators (m_parts (p_manifest ?s1) ! i)"
    using posted_after_success [OF old k1, of permlink "p_author s"] kt tot
    by (simp add: updated m_total_parts_def)
  have num': "\<forall>i < length (m_parts (p_manifest ?s1)).
                pr_part_number (m_parts (p_manifest ?s1) ! i) = i + 1"
  proof (intro allI impI)
    fix i assume "i < length (m_parts (p_manifest ?s1))"
    then have il: "i < length (m_parts (p_manifest s))" by (simp add: updated)
    from k1 kt tot have kl: "k - 1 < length (m_parts (p_manifest s))"
      by (simp add: m_total_parts_def)
    from num il have "pr_part_number (m_parts (p_manifest s) ! i) = i + 1" by simp
    with il kl k1 show "pr_part_number (m_parts (p_manifest ?s1) ! i) = i + 1"
      by (auto simp: updated markPosted_nth nth_list_update)
  qed
  have cd: "backoffsOf (p_trace (cooldownLoop 20 ?s1)) = []"
    "payloadsOf (p_trace (cooldownLoop 20 ?s1)) = payloadsOf (p_trace s) @ [payload]"
    using cooldownLoop_trace [OF s1_fields(2), of 20] tr1 by simp_all
  have "ready m0 ?s'"
    unfolding ready_def
    using s1_fields auth len cmp' root' cd parts' sent pk k1 cnt num'
    by (auto simp: less_Suc_eq)
  moreover have "p_currentPart ?s' = k + 1" using s1_fields by simp
  ultimately show ?thesis using step by blast
qed

lemma startLoop_reaches:
  assumes "compactFits env m0" and "succeedsBefore env n" and "n \<le> m_total_parts m0"
  shows "ready m0 s \<Longrightarrow> p_currentPart s \<le> n \<Longrightarrow>
         \<exists>s'. startLoop env s = startLoop env s' \<and> ready m0 s' \<and> p_currentPart s' = n"
proof (induction "n - p_currentPart s" arbitrary: s)
  case 0
  then show ?case by auto
next
  case (Suc d)
  then have lt: "p_currentPart s < n" by simp
  from startLoop_success_step [OF Suc.prems(1) refl lt assms(3) assms(1) assms(2)]
  obtain s1 where s1: "startLoop env s = startLoop env s1" "ready m0 s1"
    "p_currentPart s1 = p_currentPart s + 1" by blast
  with Suc.hyps(2) lt have "d = n - p_currentPart s1" "p_currentPart s1 \<le> n" by simp_all
  from Suc.hyps(1) [OF this(1) s1(2) this(2)] s1(1) show ?case by auto
qed

subsection \<open>A part that is refused\<close>

lemma tryPost_throws:
  assumes "generatePostPayload env s n content = Inr payload"
    and "env_transport env (transportCalls (p_trace s)) payload = Throws e"
  shows "tryPost env n content a (beginAttempt n a s)
           = (Inl e, emit (Transport payload) (beginAttempt n a s))"
proof -
  have "generatePostPayload env (beginAttempt n a s) n content = Inr payload"
    using assms(1) generatePostPayload_state [of "beginAttempt n a s" s env n content] by simp
  moreover have "env_transport env (transportCalls (p_trace (beginAttempt n a s))) payload = Throws e"
    using assms(2) by (simp add: transportCalls_payloads)
  ultimately show ?thesis by (simp add: tryPost_def)
qed

lemma afterThrow_fields [simp]:
  "p_manifest (afterThrow env n a e payload s) = p_manifest s"
  "p_contentParts (afterThrow env n a e payload s) = p_contentParts s"
  "p_author (afterThrow env n a e payload s) = p_author s"
  "p_currentPart (afterThrow env n a e payload s) = p_currentPart s"
  "p_attempts (afterThrow env n a e payload s) = (p_attempts s)(n \<mapsto> a)"
  "p_cancelled (afterThrow env n a e payload s) = p_cancelled s"
  "p_paused (afterThrow env n a e payload s) = p_paused s"
  "p_rootPermlink (afterThrow env n a e payload s) = p_rootPermlink s"
  "p_trace (afterThrow env n a e payload s) =
     p_trace s @ [Progress (if a > 1 then PhRetrying else PhPosting) n a StInProgress,
                  Transport payload]"
  by (simp_all add: afterThrow_def)

lemma attemptLoop_transient_retry:
  assumes "generatePostPayload env s n content = Inr payload"
    and "env_transport env (transportCalls (p_trace s)) payload = Throws e"
    and "classifyError (env_toLowerCase env) e = TRANSIENT"
    and "\<not> p_cancelled s" and "a < maxAttempts"
  shows "attemptLoop env n content a s =
           attemptLoop env n content (a + 1)
             (emit (Sleep Backoff (backoffDelay a)) (afterThrow env n a e payload s))"
  using assms(3-5) tryPost_throws [OF assms(1,2), of a]
  by (subst attemptLoop.simps) (simp add: afterThrow_def)

lemma attemptLoop_transient_last:
  assumes "generatePostPayload env s n content = Inr payload"
    and "env_transport env (transportCalls (p_trace s)) payload = Throws e"
    and "classifyError (env_toLowerCase env) e = TRANSIENT"
    and "\<not> p_cancelled s" and "a = maxAttempts"
  shows "attemptLoop env n content a s =
           (PostFailed (err_message e) True,
            emit (Progress PhPaused n a StPaused) (markAsPaused (afterThrow env n a e payload s)))"
  using assms(3-5) tryPost_throws [OF assms(1,2), of a]
  by (subst attemptLoop.simps) (simp add: afterThrow_def)

lemma attemptLoop_permanent:
  assumes "generatePostPayload env s n content = Inr payload"
    and "env_transport env (transportCalls (p_trace s)) payload = Throws e"
    and "classifyError (env_toLowerCase env) e = PERMANENT"
    and "\<not> p_cancelled s" and "a \<le> maxAttempts"
  shows "attemptLoop env n content a s =
           (PostFailed (err_message e) False, afterThrow env n a e payload s)"
  using assms(3-5) tryPost_throws [OF assms(1,2), of a]
  by (subst attemptLoop.simps) (simp add: afterThrow_def)

lemma getStatus_paused: "\<not> p_cancelled s \<Longrightarrow> p_paused s \<Longrightarrow> getStatus s = Paused"
  by (simp add: getStatus_def)

lemma getStatus_steps [simp]:
  "getStatus (emit ev s) = getStatus s"
  "getStatus (saveState s) = getStatus s"
  by (simp_all add: getStatus_def split: list.splits)

lemma enterPart_fields [simp]:
  "p_manifest (enterPart n s) = p_manifest s"
  "p_contentParts (enterPart n s) = p_contentParts s"
  "p_author (enterPart n s) = p_author s"
  "p_currentPart (enterPart n s) = p_currentPart s"
  "p_cancelled (enterPart n s) = p_cancelled s"
  "p_paused (enterPart n s) = p_paused s"
  "p_rootPermlink (enterPart n s) = p_rootPermlink s"
  "p_trace (enterPart n s) = p_trace s"
  by (simp_all add: enterPart_def)

lemma postPartWithRetry_enter:
  "1 \<le> n \<Longrightarrow> n \<le> length (p_contentParts s) \<Longrightarrow>
   postPartWithRetry env n s =
     Some (attemptLoop env n (contentOf (p_contentParts s ! (n - 1))) 1 (enterPart n s))"
  by (auto simp: postPartWithRetry_def enterPart_def)

lemma startLoop_transient_exhaustion:
  assumes rdy: "ready m0 s" and n: "p_currentPart s = n" "n \<le> m_total_parts m0"
    and fits: "compactFits env m0" and fails: "failsAt env n TRANSIENT"
  shows "\<exists>(e :: js_error) payload s'.
      startLoop env s = (StartPartFailed n (err_message e), s') \<and> partOf payload = n \<and>
      p_trace s' = p_trace s @
        [Progress PhPosting n 1 StInProgress, Transport payload, Sleep Backoff 1000,
         Progress PhRetrying n 2 StInProgress, Transport payload, Sleep Backoff 3000,
         Progress PhRetrying n 3 StInProgress, Transport payload,
         SaveState Paused n, Progress PhPaused n 3 StPaused,
         Progress PhFailed n 3 StFailed, SaveState Paused n] \<and>
      p_paused s' \<and> \<not> p_cancelled s' \<and> getStatus s' = Paused \<and> p_currentPart s' = n \<and>
      p_attempts s' n = Some 3 \<and> p_manifest s' = p_manifest s"
proof -
  from rdy n have n1: "1 \<le> n" and nc: "\<not> p_cancelled s" and np: "\<not> p_paused s"
    and tot: "m_total_parts (p_manifest s) = m_total_parts m0"
    and len: "length (p_contentParts s) = m_total_parts m0"
    by (auto simp: ready_def)
  define content where "content = contentOf (p_contentParts s ! (n - 1))"
  define i where "i = enterPart n s"
  have i_fields: "p_manifest i = p_manifest s" "p_rootPermlink i = p_rootPermlink s"
    "p_author i = p_author s" "p_trace i = p_trace s" "p_cancelled i = p_cancelled s"
    "p_currentPart i = p_currentPart s" "p_paused i = p_paused s"
    by (simp_all add: i_def)
  from ready_payload [OF rdy n fits i_fields(1-3)] obtain payload where
    gen0: "generatePostPayload env i n content = Inr payload" and pk: "partOf payload = n"
    by blast
  from fails pk obtain e1 where
    t1: "env_transport env (transportCalls (p_trace i)) payload = Throws e1"
    and c1: "classifyError (env_toLowerCase env) e1 = TRANSIENT"
    unfolding failsAt_def failsAtCall_def by (metis (no_types))
  define s1 where "s1 = emit (Sleep Backoff (backoffDelay 1)) (afterThrow env n 1 e1 payload i)"
  have s1_fields: "p_manifest s1 = p_manifest s" "p_rootPermlink s1 = p_rootPermlink s"
    "p_author s1 = p_author s" "p_cancelled s1 = p_cancelled s"
    "p_currentPart s1 = p_currentPart s" "p_paused s1 = p_paused s"
    "p_trace s1 = p_trace s @ [Progress PhPosting n 1 StInProgress, Transport payload,
                              Sleep Backoff 1000]"
    by (simp_all add: s1_def i_fields backoffDelay_def backoffDelays_def)
  have gen1: "generatePostPayload env s1 n content = Inr payload"
    using gen0 generatePostPayload_state [of s1 i env n content]
    by (simp add: s1_fields i_fields)
  from fails pk obtain e2 where
    t2: "env_transport env (transportCalls (p_trace s1)) payload = Throws e2"
    and c2: "classifyError (env_toLowerCase env) e2 = TRANSIENT"
    unfolding failsAt_def failsAtCall_def by (metis (no_types))
  define s2 where "s2 = emit (Sleep Backoff (backoffDelay 2)) (afterThrow env n 2 e2 payload s1)"
  have s2_fields: "p_manifest s2 = p_manifest s" "p_rootPermlink s2 = p_rootPermlink s"
    "p_author s2 = p_author s" "p_cancelled s2 = p_cancelled s"
    "p_currentPart s2 = p_currentPart s" "p_paused s2 = p_paused s"
    "p_trace s2 = p_trace s1 @ [Progress PhRetrying n 2 StInProgress, Transport payload,
                               Sleep Backoff 3000]"
    by (simp_all add: s2_def s1_fields backoffDelay_def backoffDelays_def)
  have gen2: "generatePostPayload env s2 n content = Inr payload"
    using gen1 generatePostPayload_state [of s2 s1 env n content]
    by (simp add: s2_fields s1_fields)
  from fails pk obtain e3 where
    t3: "env_transport env (transportCalls (p_trace s2)) payload = Throws e3"
    and c3: "classifyError (env_toLowerCase env) e3 = TRANSIENT"
    unfolding failsAt_def failsAtCall_def by (metis (no_types))
  define s3 where
    "s3 = emit (Progress PhPaused n 3 StPaused) (markAsPaused (afterThrow env n 3 e3 payload s2))"
  have s3_fields: "p_manifest s3 = p_manifest s" "\<not> p_cancelled s3" "p_paused s3"
    "p_currentPart s3 = n" "p_attempts s3 n = Some 3"
    "p_trace s3 = p_trace s2 @ [Progress PhRetrying n 3 StInProgress, Transport payload,
                               SaveState Paused n, Progress PhPaused n 3 StPaused]"
    using nc n by (simp_all add: s3_def s2_fields)
  have nc0: "\<not> p_cancelled i" and nc1: "\<not> p_cancelled s1" and nc2: "\<not> p_cancelled s2"
    using nc by (simp_all add: i_fields s1_fields s2_fields)
  have m1: "(1::nat) < maxAttempts" and m2: "(2::nat) < maxAttempts" and m3: "(3::nat) = maxAttempts"
    by (simp_all add: maxAttempts_def)
  have e12: "(1::nat) + 1 = 2" and e23: "(2::nat) + 1 = 3" by simp_all
  have a1: "attemptLoop env n content 1 i = attemptLoop env n content 2 s1"
    using attemptLoop_transient_retry [OF gen0 t1 c1 nc0 m1] unfolding s1_def e12 .
  have a2: "attemptLoop env n content 2 s1 = attemptLoop env n content 3 s2"
    using attemptLoop_transient_retry [OF gen1 t2 c2 nc1 m2] unfolding s2_def e23 .
  have a3: "attemptLoop env n content 3 s2 = (PostFailed (err_message e3) True, s3)"
    using attemptLoop_transient_last [OF gen2 t3 c3 nc2 m3] unfolding s3_def .
  have ppr: "postPartWithRetry env n s = Some (PostFailed (err_message e3) True, s3)"
    using postPartWithRetry_enter [of n s env] n1 n(2) len a1 a2 a3
    by (simp add: content_def i_def)
  define s' where
    "s' = saveState (emit (Progress PhFailed (p_currentPart s3) (attemptsOr0 s3) StFailed) s3)"
  have step: "startLoop env s = (StartPartFailed (p_currentPart s3) (err_message e3), s')"
    using n tot nc np ppr unfolding s'_def by (subst startLoop.simps) simp
  have at: "attemptsOr0 s3 = 3" by (simp add: attemptsOr0_def s3_fields)
  have st: "getStatus s3 = Paused" by (simp add: getStatus_def s3_fields)
  have tr: "p_trace s' = p_trace s @
        [Progress PhPosting n 1 StInProgress, Transport payload, Sleep Backoff 1000,
         Progress PhRetrying n 2 StInProgress, Transport payload, Sleep Backoff 3000,
         Progress PhRetrying n 3 StInProgress, Transport payload,
         SaveState Paused n, Progress PhPaused n 3 StPaused,
         Progress PhFailed n 3 StFailed, SaveState Paused n]"
    by (simp add: s'_def at st s3_fields s2_fields s1_fields)
  have rest: "p_paused s'" "\<not> p_cancelled s'" "getStatus s' = Paused" "p_currentPart s' = n"
    "p_attempts s' n = Some 3" "p_manifest s' = p_manifest s"
    by (simp_all add: s'_def st s3_fields)
  from step s3_fields(4)
  have "startLoop env s = (StartPartFailed n (err_message e3), s')" by simp
  with pk tr rest show ?thesis by blast
qed

lemma startLoop_permanent_failure:
  assumes rdy: "ready m0 s" and n: "p_currentPart s = n" "n \<le> m_total_parts m0"
    and fits: "compactFits env m0" and fails: "failsAtCall env n (n - 1) PERMANENT"
  shows "\<exists>(e :: js_error) payload s'.
      startLoop env s = (StartPartFailed n (err_message e), s') \<and> partOf payload = n \<and>
      p_trace s' = p_trace s @
        [Progress PhPosting n 1 StInProgress, Transport payload,
         Progress PhFailed n 1 StFailed, SaveState (getStatus s') n] \<and>
      \<not> p_paused s' \<and> \<not> p_cancelled s' \<and> p_currentPart s' = n \<and>
      p_attempts s' n = Some 1 \<and> p_manifest s' = p_manifest s"
proof -
  from rdy n have n1: "1 \<le> n" and nc: "\<not> p_cancelled s" and np: "\<not> p_paused s"
    and tot: "m_total_parts (p_manifest s) = m_total_parts m0"
    and len: "length (p_contentParts s) = m_total_parts m0"
    and cnt: "transportCalls (p_trace s) = n - 1"
    by (auto simp: ready_def transportCalls_payloads)
  define content where "content = contentOf (p_contentParts s ! (n - 1))"
  define i where "i = enterPart n s"
  have i_fields: "p_manifest i = p_manifest s" "p_rootPermlink i = p_rootPermlink s"
    "p_author i = p_author s" "p_trace i = p_trace s" "p_cancelled i = p_cancelled s"
    "p_currentPart i = p_currentPart s" "p_paused i = p_paused s"
    by (simp_all add: i_def)
  from ready_payload [OF rdy n fits i_fields(1-3)] obtain payload where
    gen0: "generatePostPayload env i n content = Inr payload" and pk: "partOf payload = n"
    by blast
  from fails pk obtain e1 where
    "env_transport env (n - 1) payload = Throws e1"
    and c1: "classifyError (env_toLowerCase env) e1 = PERMANENT"
    unfolding failsAtCall_def by (metis (no_types))
  then have t1: "env_transport env (transportCalls (p_trace i)) payload = Throws e1"
    by (simp add: i_fields cnt)
  define s1 where "s1 = afterThrow env n 1 e1 payload i"
  have s1_fields: "p_manifest s1 = p_manifest s" "\<not> p_cancelled s1" "\<not> p_paused s1"
    "p_currentPart s1 = n" "p_attempts s1 n = Some 1"
    "p_trace s1 = p_trace s @ [Progress PhPosting n 1 StInProgress, Transport payload]"
    using nc np n by (simp_all add: s1_def i_fields)
  have nc0: "\<not> p_cancelled i" using nc by (simp add: i_fields)
  have m1: "(1::nat) \<le> maxAttempts" by (simp add: maxAttempts_def)
  have a1: "attemptLoop env n content 1 i = (PostFailed (err_message e1) False, s1)"
    using attemptLoop_permanent [OF gen0 t1 c1 nc0 m1] unfolding s1_def .
  have ppr: "postPartWithRetry env n s = Some (PostFailed (err_message e1) False, s1)"
    using postPartWithRetry_enter [of n s env] n1 n(2) len a1
    by (simp add: content_def i_def)
  define s' where
    "s' = saveState (emit (Progress PhFailed (p_currentPart s1) (attemptsOr0 s1) StFailed) s1)"
  have step: "startLoop env s = (StartPartFailed (p_currentPart s1) (err_message e1), s')"
    using n tot nc np ppr unfolding s'_def by (subst startLoop.simps) simp
  have at: "attemptsOr0 s1 = 1" by (simp add: attemptsOr0_def s1_fields)
  have gs: "getStatus s' = getStatus s1" by (simp add: s'_def)
  have tr: "p_trace s' = p_trace s @
        [Progress PhPosting n 1 StInProgress, Transport payload,
         Progress PhFailed n 1 StFailed, SaveState (getStatus s') n]"
    unfolding gs by (simp add: s'_def at s1_fields)
  have rest: "\<not> p_paused s'" "\<not> p_cancelled s'" "p_currentPart s' = n"
    "p_attempts s' n = Some 1" "p_manifest s' = p_manifest s"
    by (simp_all add: s'_def s1_fields)
  from step s1_fields(4)
  have "startLoop env s = (StartPartFailed n (err_message e1), s')" by simp
  with pk tr rest show ?thesis by blast
qed

lemma validatePartEntries_numbered:
  "validatePartEntries index records = None \<Longrightarrow> i < length records \<Longrightarrow>
   pr_part_number (records ! i) = index + i + 1"
proof (induction records arbitrary: index i)
  case Nil
  then show ?case by simp
next
  case (Cons part rest)
  from Cons.prems(1) have here: "pr_part_number part = index + 1"
    and there: "validatePartEntries (index + 1) rest = None"
    by (simp_all split: if_splits)
  show ?case
  proof (cases i)
    case 0
    with here show ?thesis by simp
  next
    case (Suc j)
    with Cons.prems(2) have "j < length rest" by simp
    from Cons.IH [OF there this] Suc show ?thesis by simp
  qed
qed

lemma validateManifest_numbered:
  assumes "validateManifest manifest = Inr ok" and "i < length (m_parts manifest)"
  shows "pr_part_number (m_parts manifest ! i) = i + 1"
proof -
  from assms(1) have "validatePartEntries 0 (m_parts manifest) = None"
    by (simp add: validateManifest_def split: if_splits option.splits)
  from validatePartEntries_numbered [OF this assms(2)] show ?thesis by simp
qed

lemma newPipeline_ready:
  assumes "newPipeline manifest contentParts author = Inr s0"
  shows "ready manifest
           (emit (Progress PhPreparing (p_currentPart s0) 0 StPending)
              (s0\<lparr>p_cancelled := False, p_paused := False\<rparr>))"
    and "p_currentPart s0 = 1"
  using assms
  by (auto simp: newPipeline_def ready_def validateManifest_numbered
      split: if_splits sum.splits)

text \<open>
  The derived status while a part is being posted. A part before the pointer has been
  posted, so a part in status \<open>failed\<close> has a number that the pointer has not passed, and
  \<open>_getStatus\<close> falls through to \<open>in_progress\<close>.
\<close>

lemma getStatus_in_progress:
  assumes "\<not> p_cancelled s" and "\<not> p_paused s"
    and "p_currentPart s \<le> m_total_parts (p_manifest s)"
    and posted: "\<forall>i < p_currentPart s - 1. postedWithLocators (m_parts (p_manifest s) ! i)"
    and numbered: "\<forall>i < length (m_parts (p_manifest s)).
                     pr_part_number (m_parts (p_manifest s) ! i) = i + 1"
  shows "getStatus s = InProgress"
proof (cases "filter (\<lambda>p. pr_status p = Failed) (m_parts (p_manifest s))")
  case Nil
  with assms(1-3) show ?thesis by (simp add: getStatus_def)
next
  case (Cons failedPart others)
  then have "failedPart \<in> set (filter (\<lambda>p. pr_status p = Failed) (m_parts (p_manifest s)))"
    by simp
  then have mem: "failedPart \<in> set (m_parts (p_manifest s))"
    and st: "pr_status failedPart = Failed"
    by simp_all
  from mem obtain j where j: "j < length (m_parts (p_manifest s))"
    "m_parts (p_manifest s) ! j = failedPart"
    by (auto simp: in_set_conv_nth)
  have "\<not> j < p_currentPart s - 1"
  proof
    assume "j < p_currentPart s - 1"
    with posted j(2) have "postedWithLocators failedPart" by auto
    with st show False by (simp add: postedWithLocators_def)
  qed
  moreover from numbered j have "pr_part_number failedPart = j + 1" by auto
  ultimately have "\<not> p_currentPart s > pr_part_number failedPart" by simp
  with assms(1-3) Cons show ?thesis by (simp add: getStatus_def)
qed

subsection \<open>The sample series\<close>

lemmas run_simps =
  newPipeline_def validateManifest_def sampleManifest_def isUuidV4_def isHexDigit_def
  m_total_parts_def sampleHash_def samplePart_def lit_def start_def startLoop.simps
  postPartWithRetry_def attemptLoop.simps tryPost_def generatePostPayload_def
  compactManifestForPost_def compactOf_def MANIFEST_SIZE_LIMIT_def sampleEnv_def
  maxAttempts_def truthy_def updateManifestWithPost_def recordSuccess_def
  emit_def saveState_def getStatus_def beginAttempt_def showNat.simps
  MANIFEST_OPEN_def MANIFEST_CLOSE_def succeedingTransport_def transportCalls_def
  attemptsOr0_def upt_rec

lemmas scenario_simps =
  run_simps scenarioTransport_def partOf_def sampleObject_def mkPart_def
  logError_def markAsPaused_def classifyError_def asciiLower_def jsIncludes_def indexOf_def
  errorToString_def mkError_def timeoutError_def authError_def backoffDelay_def
  backoffDelays_def Let_def

lemma timeout_is_transient: "classifyError asciiLower timeoutError = TRANSIENT"
  by (simp add: classifyError_def asciiLower_def jsIncludes_def indexOf_def errorToString_def
      mkError_def timeoutError_def lit_def Let_def)

lemma authority_is_permanent: "classifyError asciiLower authError = PERMANENT"
  by (simp add: classifyError_def asciiLower_def jsIncludes_def indexOf_def errorToString_def
      mkError_def authError_def lit_def Let_def)

lemma scenario_hypotheses:
  "compactFits (sampleEnv (scenarioTransport n e)) manifest"
  "succeedsBefore (sampleEnv (scenarioTransport n e)) n"
  "classifyError asciiLower e = kind \<Longrightarrow> failsAt (sampleEnv (scenarioTransport n e)) n kind"
  by (simp_all add: compactFits_def succeedsBefore_def failsAt_def failsAtCall_def sampleEnv_def
      scenarioTransport_def MANIFEST_SIZE_LIMIT_def lit_def)

lemma sample_pipeline:
  "\<exists>s0. newPipeline (sampleManifest 3)
           [sampleObject (lit ''one''), sampleObject (lit ''two''), sampleObject (lit ''three'')]
           (lit ''alice'') = Inr s0"
  by (simp add: run_simps)

subsection \<open>The resume verifier on an expected entry without a digest\<close>

text \<open>
  A posted part whose expected entry has no \<open>sha256\<close> string is listed twice in
  \<open>failed\<close>: once by the mismatch, once by the \<open>catch\<close> of the \<open>TypeError\<close> that the warning
  raises. It is counted once in \<open>totalChecked\<close>.
\<close>

lemma verifyCompletedParts_expected_without_sha256:
  "verifyCompletedParts plainDigests (\<lambda>author permlink. FetchPost (lit ''Hello''))
     postedManifest
     (Some [\<lparr>ph_part_number = 1, ph_sha256 = Null, ph_blake2b = Null, ph_md5 = Null\<rparr>])
     = \<lparr>vr_verified = [], vr_failed = [1, 1], vr_missing = [], vr_totalChecked = 1\<rparr>"
  by (simp add: verifyCompletedParts_def classifyPart_def hashString_def plainDigests_def
      postedManifest_def sampleManifest_def lit_def)

subsection \<open>Claims on the resume verifier\<close>

text \<open>
  C2. The claim: for a posted part whose published body is the part's content followed
  by the embedded manifest marker, returned unmodified by the publish target,
  \<open>verifyCompletedParts\<close> strips the marker before hashing and classifies the part as
  verified. The function hashes \<open>post.body\<close> as fetched; \<open>stripManifestComment\<close> is
  defined and exported, and called nowhere. So whenever the SHA-256 digest of the body
  with its marker differs from the digest of the content alone, which is the expected
  per-part digest, the part is classified failed.
\<close>

theorem verifyCompletedParts_hashes_unstripped_body:
  assumes "env_md5 env \<noteq> None"
    and "m_parts manifest = [part]" and "pr_status part = Posted"
    and "getHiveContent (pr_author part) (pr_permlink part)
           = FetchPost (text @ [LF, LF] @ MANIFEST_OPEN @ compact @ MANIFEST_CLOSE)"
    and "ph_sha256 expected = Value (env_sha256 env text)"
    and "env_sha256 env (text @ [LF, LF] @ MANIFEST_OPEN @ compact @ MANIFEST_CLOSE)
           \<noteq> env_sha256 env text"
  shows "verifyCompletedParts env getHiveContent manifest (Some [expected]) =
           \<lparr>vr_verified = [], vr_failed = [pr_part_number part], vr_missing = [],
            vr_totalChecked = 1\<rparr>"
  using assms
  by (auto simp: verifyCompletedParts_def classifyPart_def hashString_def)

theorem verifyCompletedParts_hashes_unstripped_body_witness:
  "env_md5 plainDigests \<noteq> None \<and>
   env_sha256 plainDigests (lit ''Hello'' @ [LF, LF] @ MANIFEST_OPEN @ lit ''{}'' @ MANIFEST_CLOSE)
     \<noteq> env_sha256 plainDigests (lit ''Hello'') \<and>
   stripManifestComment
     (JString (lit ''Hello'' @ [LF, LF] @ MANIFEST_OPEN @ lit ''{}'' @ MANIFEST_CLOSE))
     = JString (lit ''Hello'') \<and>
   verifyCompletedParts plainDigests
     (\<lambda>author permlink.
        FetchPost (lit ''Hello'' @ [LF, LF] @ MANIFEST_OPEN @ lit ''{}'' @ MANIFEST_CLOSE))
     postedManifest
     (Some [\<lparr>ph_part_number = 1, ph_sha256 = Value (env_sha256 plainDigests (lit ''Hello'')),
             ph_blake2b = Null, ph_md5 = Value (rev (lit ''Hello''))\<rparr>])
     = \<lparr>vr_verified = [], vr_failed = [1], vr_missing = [], vr_totalChecked = 1\<rparr>"
proof -
  let ?body = "lit ''Hello'' @ [LF, LF] @ MANIFEST_OPEN @ lit ''{}'' @ MANIFEST_CLOSE"
  let ?part = "\<lparr>pr_part_number = 1, pr_permlink = Some (lit ''a7b3c4d5-part-1''),
                pr_author = Some (lit ''alice''), pr_status = Posted,
                pr_posted_at = Some (lit ''now'')\<rparr>"
  let ?expected = "\<lparr>ph_part_number = 1, ph_sha256 = Value (env_sha256 plainDigests (lit ''Hello'')),
             ph_blake2b = Null, ph_md5 = Value (rev (lit ''Hello''))\<rparr>"
  have a: "env_md5 plainDigests \<noteq> None" by (simp add: plainDigests_def)
  have b: "m_parts postedManifest = [?part]" by (simp add: postedManifest_def)
  have c: "pr_status ?part = Posted" by simp
  have d: "(\<lambda>author permlink. FetchPost ?body) (pr_author ?part) (pr_permlink ?part)
             = FetchPost ?body" by simp
  have e: "ph_sha256 ?expected = Value (env_sha256 plainDigests (lit ''Hello''))" by simp
  have f: "env_sha256 plainDigests ?body \<noteq> env_sha256 plainDigests (lit ''Hello'')"
    by (simp add: plainDigests_def lit_def)
  have g: "stripManifestComment (JString ?body) = JString (lit ''Hello'')"
    by (simp add: stripManifestComment_def matchAt_def MANIFEST_OPEN_def MANIFEST_CLOSE_def lit_def)
  from verifyCompletedParts_hashes_unstripped_body [OF a b c d e f] a f g
  show ?thesis by simp
qed

subsection \<open>Claims on the publish payload\<close>

text \<open>
  C3. The claim: when \<open>contentParts\<close> is the list of the parts' content strings, the body
  of the payload for part \<open>n\<close> is the content of part \<open>n\<close> followed by the marker.
  \<open>_postPartWithRetry\<close> reads \<open>part.content\<close>, which is \<open>undefined\<close> on a string, and the
  template literal of \<open>_generatePostPayload\<close> prints it as the nine letters
  \<open>undefined\<close>: the series of the one part \<open>Hello\<close>, given as a string, is published
  with the body \<open>undefined\<close> followed by the marker.
\<close>

theorem string_parts_publish_undefined_body:
  "\<exists>s r s'. newPipeline (sampleManifest 1) [PartString (lit ''Hello'')] (lit ''alice'') = Inr s \<and>
     start (sampleEnv succeedingTransport) s = (r, s') \<and>
     map pp_body (payloadsOf (p_trace s')) =
       [lit ''undefined'' @ [LF, LF] @ MANIFEST_OPEN @ lit ''{}'' @ MANIFEST_CLOSE]"
  by (simp add: run_simps)

subsection \<open>Claims on the part record invariant\<close>

text \<open>
  C7. The claim: every manifest mutation of the pipeline preserves the invariant that a
  posted part has both locators. \<open>updateManifestWithPost\<close> does, as lemma
  \<open>updateManifestWithPost_keeps_invariant\<close> shows; the status correction does not. A pipeline
  over two pending parts, restored at part 2 with a root locator, publishes part 2; the
  correction then marks part 1 posted and leaves its permlink and author null, and
  \<open>validateManifest\<close> rejects the manifest of the finished run.
\<close>

theorem status_correction_breaks_part_invariant:
  "\<exists>s r s'.
     newPipeline (sampleManifest 2) [sampleObject (lit ''Hello''), sampleObject (lit ''World'')]
       (lit ''alice'') = Inr s \<and>
     partInvariant (p_manifest s) \<and>
     start (sampleEnv succeedingTransport)
       (restoreState \<lparr>ss_manifest = None, ss_currentPart = 2, ss_attempts = None,
                      ss_cancelled = False, ss_paused = False, ss_errors = [],
                      ss_rootPermlink = Some (lit ''root'')\<rparr> s) = (r, s') \<and>
     r = StartSuccess \<and>
     \<not> partInvariant (p_manifest s') \<and>
     validateManifest (p_manifest s') = Inl (PostedMissingPermlink 1)"
  by (simp add: run_simps restoreState_def partInvariant_def sampleObject_def mkPart_def)

subsection \<open>Claims on retries\<close>

text \<open>
  C5. The claim: a part whose every attempt fails with a transient error is attempted
  three times with backoff delays of 1s, 3s and 9s between the attempts. The loop sleeps
  only while \<open>attempt < maxAttempts\<close>, so it pauses right after the third failure: the
  delays of the run are 1s and 3s, and the 9s of \<open>RETRY_CONFIG\<close> is never slept.
\<close>

theorem transient_exhaustion_delays_counterexample:
  "\<exists>s0 r s'.
     newPipeline (sampleManifest 1) [sampleObject (lit ''Hello'')] (lit ''alice'') = Inr s0 \<and>
     start (sampleEnv (scenarioTransport 1 timeoutError)) s0 = (r, s') \<and>
     classifyError asciiLower timeoutError = TRANSIENT \<and>
     length (payloadsOf (p_trace s')) = 3 \<and>
     backoffsOf (p_trace s') = [1000, 3000] \<and>
     backoffsOf (p_trace s') \<noteq> [1000, 3000, 9000]"
  by (simp add: scenario_simps)

text \<open>
  C5 as amended: if the transport accepts every part before \<open>n\<close> and fails with a
  transient error on every attempt for part \<open>n\<close>, the pipeline makes exactly three attempts
  for part \<open>n\<close>, with backoff delays of 1s and 3s between them and none after the third,
  and then ends paused, not failed: the paused flag is set and the derived status is
  \<open>paused\<close>, the pointer is still \<open>n\<close>, the attempt count of part \<open>n\<close> is 3, and every
  earlier part is posted with both locators. The trace of the statement is all that the
  run does from the first attempt for part \<open>n\<close> on.
\<close>

theorem transient_exhaustion_pauses:
  assumes "newPipeline manifest contentParts author = Inr s0"
    and "1 \<le> n" and "n \<le> m_total_parts manifest"
    and "compactFits env manifest" and "succeedsBefore env n" and "failsAt env n TRANSIENT"
  shows "\<exists>message s' before payload.
      start env s0 = (StartPartFailed n message, s') \<and>
      p_trace s' = before @
        [Progress PhPosting n 1 StInProgress, Transport payload, Sleep Backoff 1000,
         Progress PhRetrying n 2 StInProgress, Transport payload, Sleep Backoff 3000,
         Progress PhRetrying n 3 StInProgress, Transport payload,
         SaveState Paused n, Progress PhPaused n 3 StPaused,
         Progress PhFailed n 3 StFailed, SaveState Paused n] \<and>
      backoffsOf before = [] \<and> list_all (\<lambda>p. partOf p < n) (payloadsOf before) \<and>
      partOf payload = n \<and>
      p_paused s' \<and> getStatus s' = Paused \<and> getStatus s' \<noteq> FailedStatus \<and>
      p_currentPart s' = n \<and> p_attempts s' n = Some 3 \<and>
      list_all postedWithLocators (take (n - 1) (m_parts (p_manifest s')))"
proof -
  let ?s = "emit (Progress PhPreparing (p_currentPart s0) 0 StPending)
              (s0\<lparr>p_cancelled := False, p_paused := False\<rparr>)"
  note init = newPipeline_ready [OF assms(1)]
  have "p_currentPart ?s \<le> n" using init(2) assms(2) by simp
  from startLoop_reaches [OF assms(4,5,3) init(1) this] obtain sn where
    sn: "startLoop env ?s = startLoop env sn" "ready manifest sn" "p_currentPart sn = n"
    by blast
  from startLoop_transient_exhaustion [OF sn(2,3) assms(3,4,6)] obtain e :: js_error and payload s' where
    run: "startLoop env sn = (StartPartFailed n (err_message e), s')" "partOf payload = n"
      "p_trace s' = p_trace sn @
        [Progress PhPosting n 1 StInProgress, Transport payload, Sleep Backoff 1000,
         Progress PhRetrying n 2 StInProgress, Transport payload, Sleep Backoff 3000,
         Progress PhRetrying n 3 StInProgress, Transport payload,
         SaveState Paused n, Progress PhPaused n 3 StPaused,
         Progress PhFailed n 3 StFailed, SaveState Paused n]"
      "p_paused s'" "getStatus s' = Paused" "p_currentPart s' = n" "p_attempts s' n = Some 3"
      "p_manifest s' = p_manifest sn"
    by blast
  from sn(2,3) have before: "backoffsOf (p_trace sn) = []"
    "list_all (\<lambda>p. partOf p < n) (payloadsOf (p_trace sn))"
    and posted: "\<forall>i < n - 1. postedWithLocators (m_parts (p_manifest sn) ! i)"
    and tot: "m_total_parts (p_manifest sn) = m_total_parts manifest"
    by (auto simp: ready_def list_all_iff)
  from posted tot assms(3) have
    "list_all postedWithLocators (take (n - 1) (m_parts (p_manifest sn)))"
    by (auto simp: list_all_length m_total_parts_def)
  with run before sn(1) show ?thesis
    by (simp add: start_def)
qed

theorem transient_exhaustion_pauses_witness:
  "\<exists>s0. newPipeline (sampleManifest 3)
           [sampleObject (lit ''one''), sampleObject (lit ''two''), sampleObject (lit ''three'')]
           (lit ''alice'') = Inr s0 \<and>
     (1::nat) \<le> 3 \<and> 3 \<le> m_total_parts (sampleManifest 3) \<and>
     compactFits (sampleEnv (scenarioTransport 3 timeoutError)) (sampleManifest 3) \<and>
     succeedsBefore (sampleEnv (scenarioTransport 3 timeoutError)) 3 \<and>
     failsAt (sampleEnv (scenarioTransport 3 timeoutError)) 3 TRANSIENT \<and>
     (\<exists>message s' before payload.
        start (sampleEnv (scenarioTransport 3 timeoutError)) s0
          = (StartPartFailed 3 message, s') \<and>
        p_trace s' = before @
          [Progress PhPosting 3 1 StInProgress, Transport payload, Sleep Backoff 1000,
           Progress PhRetrying 3 2 StInProgress, Transport payload, Sleep Backoff 3000,
           Progress PhRetrying 3 3 StInProgress, Transport payload,
           SaveState Paused 3, Progress PhPaused 3 3 StPaused,
           Progress PhFailed 3 3 StFailed, SaveState Paused 3] \<and>
        backoffsOf before = [] \<and> list_all (\<lambda>p. partOf p < 3) (payloadsOf before) \<and>
        partOf payload = 3 \<and>
        p_paused s' \<and> getStatus s' = Paused \<and> getStatus s' \<noteq> FailedStatus \<and>
        p_currentPart s' = 3 \<and> p_attempts s' 3 = Some 3 \<and>
        list_all postedWithLocators (take (3 - 1) (m_parts (p_manifest s'))))"
proof -
  from sample_pipeline obtain s0 where
    s0: "newPipeline (sampleManifest 3)
           [sampleObject (lit ''one''), sampleObject (lit ''two''), sampleObject (lit ''three'')]
           (lit ''alice'') = Inr s0"
    by blast
  have r: "(1::nat) \<le> 3" "3 \<le> m_total_parts (sampleManifest 3)"
    by (simp_all add: m_total_parts_def sampleManifest_def)
  note h = scenario_hypotheses(1) [of 3 timeoutError "sampleManifest 3"]
    scenario_hypotheses(2) [of 3 timeoutError]
    scenario_hypotheses(3) [OF timeout_is_transient, of 3]
  from transient_exhaustion_pauses [OF s0 r h] s0 r h show ?thesis by blast
qed

text \<open>
  C6. The claim: when the transport throws a permanent error on the first attempt for
  part \<open>n\<close>, the pipeline ends in the Failed state at once, with attempt count 1 and no
  backoff. The run does end at once, after one transport call for part \<open>n\<close>, with attempt
  count 1 and no backoff sleep anywhere, and it reports the failure of part \<open>n\<close>. But the
  pipeline is not left in the Failed state: its status is the derived \<open>_getStatus\<close>, which
  answers \<open>failed\<close> only for a part in status \<open>failed\<close> behind the pointer, and no step of
  the pipeline sets a part to \<open>failed\<close>. After the permanent failure the status is
  \<open>in_progress\<close>, and that is what \<open>_saveState\<close> stores.
\<close>

theorem permanent_error_leaves_status_in_progress:
  assumes "newPipeline manifest contentParts author = Inr s0"
    and "1 \<le> n" and "n \<le> m_total_parts manifest"
    and "compactFits env manifest" and "succeedsBefore env n"
    and "failsAtCall env n (n - 1) PERMANENT"
  shows "\<exists>message s' before payload.
      start env s0 = (StartPartFailed n message, s') \<and>
      p_trace s' = before @
        [Progress PhPosting n 1 StInProgress, Transport payload,
         Progress PhFailed n 1 StFailed, SaveState InProgress n] \<and>
      backoffsOf (p_trace s') = [] \<and> list_all (\<lambda>p. partOf p < n) (payloadsOf before) \<and>
      partOf payload = n \<and>
      \<not> p_paused s' \<and> \<not> p_cancelled s' \<and> p_currentPart s' = n \<and>
      p_attempts s' n = Some 1 \<and>
      getStatus s' = InProgress \<and> getStatus s' \<noteq> FailedStatus"
proof -
  let ?s = "emit (Progress PhPreparing (p_currentPart s0) 0 StPending)
              (s0\<lparr>p_cancelled := False, p_paused := False\<rparr>)"
  note init = newPipeline_ready [OF assms(1)]
  have "p_currentPart ?s \<le> n" using init(2) assms(2) by simp
  from startLoop_reaches [OF assms(4,5,3) init(1) this] obtain sn where
    sn: "startLoop env ?s = startLoop env sn" "ready manifest sn" "p_currentPart sn = n"
    by blast
  from startLoop_permanent_failure [OF sn(2,3) assms(3,4,6)]
  obtain e :: js_error and payload s' where
    run: "startLoop env sn = (StartPartFailed n (err_message e), s')" "partOf payload = n"
      "p_trace s' = p_trace sn @
        [Progress PhPosting n 1 StInProgress, Transport payload,
         Progress PhFailed n 1 StFailed, SaveState (getStatus s') n]"
      "\<not> p_paused s'" "\<not> p_cancelled s'" "p_currentPart s' = n" "p_attempts s' n = Some 1"
      "p_manifest s' = p_manifest sn"
    by blast
  from sn(2,3) have before: "backoffsOf (p_trace sn) = []"
    "list_all (\<lambda>p. partOf p < n) (payloadsOf (p_trace sn))"
    and posted: "\<forall>i < n - 1. postedWithLocators (m_parts (p_manifest sn) ! i)"
    and tot: "m_total_parts (p_manifest sn) = m_total_parts manifest"
    and numbered: "\<forall>i < length (m_parts (p_manifest sn)).
                     pr_part_number (m_parts (p_manifest sn) ! i) = i + 1"
    by (auto simp: ready_def list_all_iff)
  have status: "getStatus s' = InProgress"
  proof (rule getStatus_in_progress)
    show "\<not> p_cancelled s'" "\<not> p_paused s'" by (rule run(5), rule run(4))
    show "p_currentPart s' \<le> m_total_parts (p_manifest s')"
      using run(6,8) tot assms(3) by simp
    show "\<forall>i < p_currentPart s' - 1. postedWithLocators (m_parts (p_manifest s') ! i)"
      using posted run(6,8) by simp
    show "\<forall>i < length (m_parts (p_manifest s')).
            pr_part_number (m_parts (p_manifest s') ! i) = i + 1"
      using numbered run(8) by simp
  qed
  from run(3) before(1) have "backoffsOf (p_trace s') = []" by simp
  with run before sn(1) status show ?thesis
    by (auto simp: start_def)
qed

theorem permanent_error_leaves_status_in_progress_witness:
  "\<exists>s0. newPipeline (sampleManifest 3)
           [sampleObject (lit ''one''), sampleObject (lit ''two''), sampleObject (lit ''three'')]
           (lit ''alice'') = Inr s0 \<and>
     (1::nat) \<le> 2 \<and> 2 \<le> m_total_parts (sampleManifest 3) \<and>
     compactFits (sampleEnv (scenarioTransport 2 authError)) (sampleManifest 3) \<and>
     succeedsBefore (sampleEnv (scenarioTransport 2 authError)) 2 \<and>
     failsAtCall (sampleEnv (scenarioTransport 2 authError)) 2 (2 - 1) PERMANENT \<and>
     (\<exists>message s' before payload.
        start (sampleEnv (scenarioTransport 2 authError)) s0
          = (StartPartFailed 2 message, s') \<and>
        p_trace s' = before @
          [Progress PhPosting 2 1 StInProgress, Transport payload,
           Progress PhFailed 2 1 StFailed, SaveState InProgress 2] \<and>
        backoffsOf (p_trace s') = [] \<and> list_all (\<lambda>p. partOf p < 2) (payloadsOf before) \<and>
        partOf payload = 2 \<and>
        \<not> p_paused s' \<and> \<not> p_cancelled s' \<and> p_currentPart s' = 2 \<and>
        p_attempts s' 2 = Some 1 \<and>
        getStatus s' = InProgress \<and> getStatus s' \<noteq> FailedStatus)"
proof -
  from sample_pipeline obtain s0 where
    s0: "newPipeline (sampleManifest 3)
           [sampleObject (lit ''one''), sampleObject (lit ''two''), sampleObject (lit ''three'')]
           (lit ''alice'') = Inr s0"
    by blast
  have r: "(1::nat) \<le> 2" "2 \<le> m_total_parts (sampleManifest 3)"
    by (simp_all add: m_total_parts_def sampleManifest_def)
  note h = scenario_hypotheses(1) [of 2 authError "sampleManifest 3"]
    scenario_hypotheses(2) [of 2 authError]
    scenario_hypotheses(3) [OF authority_is_permanent, of 2, unfolded failsAt_def, rule_format, of "2 - 1"]
  from permanent_error_leaves_status_in_progress [OF s0 r h] s0 r h show ?thesis by blast
qed

text \<open>
  The same run, evaluated: three pending parts, the transport accepts part 1 and throws
  \<open>Missing posting authority\<close> on the first attempt for part 2. Part 1 is posted, parts 2
  and 3 stay pending, none is failed, and the state is saved as \<open>in_progress\<close>.
\<close>

lemma permanent_failure_scenario:
  "\<exists>s0 message s'.
     newPipeline (sampleManifest 3)
       [sampleObject (lit ''one''), sampleObject (lit ''two''), sampleObject (lit ''three'')]
       (lit ''alice'') = Inr s0 \<and>
     start (sampleEnv (scenarioTransport 2 authError)) s0 = (StartPartFailed 2 message, s') \<and>
     map pr_status (m_parts (p_manifest s')) = [Posted, Pending, Pending] \<and>
     getStatus s' = InProgress \<and> last (p_trace s') = SaveState InProgress 2 \<and>
     p_attempts s' 2 = Some 1 \<and> backoffsOf (p_trace s') = []"
  by (simp add: scenario_simps cooldownLoop_trace)

end
